theory Spec2Isabelle
  imports Main "HOL-Library.Word" "HOL-Library.Sublist"
begin

section \<open>The frame cache (block\_cache.c)\<close>

text \<open>
  A frame is the C array \<open>char[BLOCK_FRAME_SIZE]\<close>, modelled as a function from the byte
  index to the byte; only indices below the frame size are ever read or written. The
  16-bit counters of the cache (\<open>uint16_t\<close>) are \<open>16 word\<close>, so their increments wrap
  as in C. Frame numbers are \<open>int\<close>; the empty-slot sentinel is \<open>-1\<close> as the source
  writes it. The heap array \<open>cache\<close> is a list whose length is the number of entries
  that were allocated (\<open>[]\<close> before \<open>malloc\<close> and after \<open>free\<close>); every function
  returns \<open>None\<close> where the C code would index outside that allocation.
\<close>

type_synonym byte = "8 word"
type_synonym frame = "nat \<Rightarrow> byte"

record cacheEntry =
  block :: nat
  frm :: int
  access :: "16 word"
  cacheFrame :: frame

record cache_state =
  block_cache_max_items :: nat
  cache :: "cacheEntry list"
  putTracker :: "16 word"
  lastAccess :: "16 word"
  cacheOn :: bool

definition set_block_cache_size :: "nat \<Rightarrow> cache_state \<Rightarrow> int \<times> cache_state" where
  "set_block_cache_size max_frames c = (0, c\<lparr>block_cache_max_items := max_frames\<rparr>)"

text \<open>\<open>memset(&cache[i], 0, sizeof(blockCache)); cache[i].frm = -1;\<close>\<close>

definition empty_entry :: cacheEntry where
  "empty_entry = \<lparr>block = 0, frm = - 1, access = 0, cacheFrame = (\<lambda>_. 0)\<rparr>"

definition init_block_cache :: "cache_state \<Rightarrow> int \<times> cache_state" where
  "init_block_cache c =
     (if cacheOn c then (- 1, c)
      else (0, c\<lparr>cache := replicate (block_cache_max_items c) empty_entry, cacheOn := True\<rparr>))"

definition close_block_cache :: "cache_state \<Rightarrow> (int \<times> cache_state) option" where
  "close_block_cache c =
     (if \<not> cacheOn c then Some (- 1, c)
      else if length (cache c) < block_cache_max_items c then None
      else Some (0, c\<lparr>cache := [], cacheOn := False\<rparr>))"

text \<open>
  The scan \<open>for (i = 0; i < block_cache_max_items; i++) if (cache[i].frm == frm) ...\<close>
  that opens both \<open>put_block_cache\<close> and \<open>get_block_cache\<close>: \<open>Some (Some i)\<close> is the
  first matching slot, \<open>Some None\<close> the loop running to its end.
\<close>

function find_frm :: "int \<Rightarrow> cache_state \<Rightarrow> nat \<Rightarrow> nat option option" where
  "find_frm F c i =
     (if i < block_cache_max_items c then
        (if i < length (cache c) then
           (if frm (cache c ! i) = F then Some (Some i) else find_frm F c (Suc i))
         else None)
      else Some None)"
  by pat_completeness auto
termination
  by (relation "measure (\<lambda>(F, c, i). block_cache_max_items c - i)") auto

declare find_frm.simps [simp del]

text \<open>
  The eviction scan: \<open>replaceTracker\<close> starts as \<open>cache[0].access\<close>, \<open>index\<close> as 0, and a
  slot replaces them only when its access is strictly smaller. \<open>index\<close> is a
  \<open>uint16_t\<close>, so \<open>index = i\<close> truncates.
\<close>

function find_lru :: "cache_state \<Rightarrow> nat \<Rightarrow> 16 word \<Rightarrow> 16 word \<Rightarrow> 16 word option" where
  "find_lru c i replaceTracker index =
     (if i < block_cache_max_items c then
        (if i < length (cache c) then
           (if access (cache c ! i) < replaceTracker
            then find_lru c (Suc i) (access (cache c ! i)) (of_nat i)
            else find_lru c (Suc i) replaceTracker index)
         else None)
      else Some index)"
  by pat_completeness auto
termination
  by (relation "measure (\<lambda>(c, i, r, x). block_cache_max_items c - i)") auto

declare find_lru.simps [simp del]

definition put_block_cache ::
  "nat \<Rightarrow> int \<Rightarrow> frame \<Rightarrow> cache_state \<Rightarrow> (int \<times> cache_state) option" where
  "put_block_cache blk F buf c =
     (if \<not> cacheOn c then Some (- 1, c)
      else
        (case find_frm F c 0 of
           None \<Rightarrow> None
         | Some (Some i) \<Rightarrow>
             Some (0, c\<lparr>lastAccess := lastAccess c + 1,
                         cache := (cache c)[i := (cache c ! i)
                            \<lparr>cacheFrame := buf, access := lastAccess c + 1\<rparr>]\<rparr>)
         | Some None \<Rightarrow>
             (if unat (putTracker c) < block_cache_max_items c then
                (if unat (putTracker c) < length (cache c) then
                   Some (0, c\<lparr>lastAccess := lastAccess c + 1,
                               cache := (cache c)[unat (putTracker c) :=
                                  \<lparr>block = blk, frm = F, access = lastAccess c + 1,
                                   cacheFrame = buf\<rparr>],
                               putTracker := putTracker c + 1\<rparr>)
                 else None)
              else
                (if 0 < length (cache c) then
                   (case find_lru c 0 (access (cache c ! 0)) 0 of
                      None \<Rightarrow> None
                    | Some index \<Rightarrow>
                        (if unat index < length (cache c) then
                           Some (0, c\<lparr>lastAccess := lastAccess c + 1,
                                       cache := (cache c)[unat index :=
                                          \<lparr>block = blk, frm = F, access = lastAccess c + 1,
                                           cacheFrame = buf\<rparr>]\<rparr>)
                         else None))
                 else None))))"

definition get_block_cache ::
  "nat \<Rightarrow> int \<Rightarrow> cache_state \<Rightarrow> (frame option \<times> cache_state) option" where
  "get_block_cache blk F c =
     (case find_frm F c 0 of
        None \<Rightarrow> None
      | Some None \<Rightarrow> Some (None, c)
      | Some (Some i) \<Rightarrow>
          Some (Some (cacheFrame (cache c ! i)),
                c\<lparr>lastAccess := lastAccess c + 1,
                  cache := (cache c)[i := (cache c ! i)\<lparr>access := lastAccess c + 1\<rparr>]\<rparr>))"


section \<open>The driver (block\_driver.c)\<close>

text \<open>
  \<open>file_t\<close>, \<open>fh_t\<close> and the constants come from headers outside the sources, so the
  records below hold the fields the driver uses: a name, a size and the list of the
  frames allocated so far; a handle's status, its \<open>file_t*\<close> (the index of the entry in
  \<open>files\<close>, \<open>None\<close> for the null pointer of a zeroed handle) and its cursor. The
  \<open>int32_t\<close> values are \<open>int\<close>; arithmetic overflow of signed integers is not modelled.
  The two tables are lists whose length is \<open>BLOCK_MAX_TOTAL_FILES\<close>. As in the cache,
  an operation returns \<open>None\<close> where the C code has undefined behaviour: an index outside
  a table or a frame list, a null file pointer, a negative length for \<open>memcpy\<close>.
\<close>

record file_t =
  name :: string
  size_f :: int
  frames :: "int list"

datatype status_t = CLOSED | OPEN

record fh_t =
  status :: status_t
  file_h :: "nat option"
  loc :: int

text \<open>
  The globals of the driver, the globals of the cache, and the storage behind
  \<open>executeOpcode\<close>: \<open>BLOCK_OP_RDFRME\<close> copies \<open>device s n\<close> into the buffer,
  \<open>BLOCK_OP_WRFRME\<close> stores the buffer at \<open>n\<close>; the driver ignores the opcode's result.
\<close>

record driver =
  isOn :: bool
  nbFiles :: nat
  nbHandles :: nat
  freeFrameNr :: int
  files :: "file_t list"
  handles :: "fh_t list"
  bcache :: cache_state
  device :: "int \<Rightarrow> frame"

text \<open>
  What the absent headers fix: the frame size, the number of frames of the device, and
  the object representation of a \<open>file_t\<close> (\<open>file_image f\<close> is the frame-sized block of
  bytes that \<open>memcpy(buf, &files[i], sizeof(frame_t))\<close> copies out of an entry holding
  \<open>f\<close>, \<open>image_file\<close> what \<open>memcpy(&files[i], buf, sizeof(file_t))\<close> makes of a frame).
\<close>

record platform =
  BLOCK_FRAME_SIZE :: nat
  DEVICE_FRAMES :: int
  file_image :: "file_t \<Rightarrow> frame"
  image_file :: "frame \<Rightarrow> file_t"

text \<open>
  The zero-initialised globals of a starting process. \<open>CLOSED\<close> is taken to be the zero
  value of the status, as the \<open>memset\<close> of the handle table in \<open>block_poweron\<close> supposes.
\<close>

definition zero_file :: file_t where
  "zero_file = \<lparr>name = [], size_f = 0, frames = []\<rparr>"

definition zero_handle :: fh_t where
  "zero_handle = \<lparr>status = CLOSED, file_h = None, loc = 0\<rparr>"

definition boot :: "nat \<Rightarrow> nat \<Rightarrow> (int \<Rightarrow> frame) \<Rightarrow> driver" where
  "boot max_total_files default_cache_size dev =
     \<lparr>isOn = False, nbFiles = 0, nbHandles = 0, freeFrameNr = 0,
      files = replicate max_total_files zero_file,
      handles = replicate max_total_files zero_handle,
      bcache = \<lparr>block_cache_max_items = default_cache_size, cache = [],
                putTracker = 0, lastAccess = 0, cacheOn = False\<rparr>,
      device = dev\<rparr>"

subsection \<open>The helpers of block\_driver\_helper\<close>

text \<open>
  Modelled from the spec: \<open>createNewFile\<close> is not in the sources; "creates a new File
  Table entry with zero size and an empty frame list".
\<close>

definition createNewFile :: "string \<Rightarrow> file_t" where
  "createNewFile path = \<lparr>name = path, size_f = 0, frames = []\<rparr>"

text \<open>
  Modelled from the spec: \<open>openFile\<close> is not in the sources; "allocates a new Handle
  bound to the resolved File, with cursor at 0 and status open".
\<close>

definition openFile :: "nat \<Rightarrow> fh_t" where
  "openFile i = \<lparr>status = OPEN, file_h = Some i, loc = 0\<rparr>"

text \<open>
  Modelled from the spec: \<open>closeFile\<close> and \<open>closeAllFiles\<close> are not in the sources;
  "marks the handle closed", "closes all open handles".
\<close>

definition closeFile :: "fh_t \<Rightarrow> fh_t" where
  "closeFile h = h\<lparr>status := CLOSED\<rparr>"

definition closeAllFiles :: "fh_t list \<Rightarrow> fh_t list" where
  "closeAllFiles hs = map closeFile hs"

text \<open>
  Modelled from the spec: \<open>getNbFiles\<close> and \<open>getFreeFrame\<close> are not in the sources;
  "computes the first free frame number and total file count from the loaded metadata".
  The count is that of the leading named entries; the first free frame lies past the
  metadata frames (one per file slot) and past every frame a file lists.
\<close>

definition getNbFiles :: "file_t list \<Rightarrow> nat" where
  "getNbFiles fs = length (takeWhile (\<lambda>f. name f \<noteq> []) fs)"

definition getFreeFrame :: "file_t list \<Rightarrow> int" where
  "getFreeFrame fs = fold (\<lambda>n m. max (n + 1) m) (concat (map frames fs)) (int (length fs))"

text \<open>
  Modelled from the spec: \<open>allocateNewFrames\<close> is not in the sources; "ensures the file
  has enough allocated frames to cover cursor + count bytes, extending the frame list
  (allocating new frame numbers) as needed; fails if frame allocation is exhausted".
  The argument is the handle's file and cursor.
\<close>

definition allocateNewFrames :: "platform \<Rightarrow> nat \<Rightarrow> int \<Rightarrow> int \<Rightarrow> driver \<Rightarrow> int \<times> driver" where
  "allocateNewFrames P fi cursor count s =
     (let f = files s ! fi;
          fs = int (BLOCK_FRAME_SIZE P);
          needed = nat ((cursor + count + fs - 1) div fs);
          extra = needed - length (frames f)
      in if extra = 0 then (0, s)
         else if DEVICE_FRAMES P < freeFrameNr s + int extra then (- 1, s)
         else (0, s\<lparr>files := (files s)[fi := f\<lparr>frames := frames f @
                          map (\<lambda>k. freeFrameNr s + int k) [0..<extra]\<rparr>],
                     freeFrameNr := freeFrameNr s + int extra\<rparr>))"

subsection \<open>Power on and off\<close>

text \<open>
  \<open>BLOCK_OP_INITMS\<close> and \<open>BLOCK_OP_POWOFF\<close> belong to the external controller; the spec
  calls its storage persistent, so they leave \<open>device\<close> as it is. Both loops run over
  the \<open>BLOCK_MAX_TOTAL_FILES\<close> slots of the tables.
\<close>

definition block_poweron :: "platform \<Rightarrow> driver \<Rightarrow> (int \<times> driver) option" where
  "block_poweron P s =
     (if isOn s then Some (- 1, s)
      else
        (let s1 = s\<lparr>isOn := True, handles := map (\<lambda>_. zero_handle) (handles s)\<rparr>;
             s2 = s1\<lparr>files := map (\<lambda>i. image_file P (device s1 (int i)))
                                  [0..<length (files s1)]\<rparr>;
             s3 = s2\<lparr>nbHandles := 0, freeFrameNr := getFreeFrame (files s2),
                      nbFiles := getNbFiles (files s2)\<rparr>
         in case init_block_cache (bcache s3) of
              (r, c) \<Rightarrow> if r = - 1 then Some (- 1, s3) else Some (0, s3\<lparr>bcache := c\<rparr>)))"

text \<open>The loop \<open>for (i = 0; i < BLOCK_MAX_TOTAL_FILES; i++)\<close> that writes entry \<open>i\<close> to frame \<open>i\<close>.\<close>

fun write_metadata :: "platform \<Rightarrow> file_t list \<Rightarrow> nat \<Rightarrow> (int \<Rightarrow> frame) \<Rightarrow> (int \<Rightarrow> frame)" where
  "write_metadata P [] i dev = dev"
| "write_metadata P (f # fs) i dev = write_metadata P fs (Suc i) (dev(int i := file_image P f))"

definition block_poweroff :: "platform \<Rightarrow> driver \<Rightarrow> (int \<times> driver) option" where
  "block_poweroff P s =
     (if \<not> isOn s then Some (- 1, s)
      else
        (case close_block_cache (bcache s) of
           None \<Rightarrow> None
         | Some (r, c) \<Rightarrow>
             (if r = - 1 then Some (- 1, s\<lparr>bcache := c\<rparr>)
              else Some (0, s\<lparr>bcache := c,
                              device := write_metadata P (files s) 0 (device s),
                              handles := closeAllFiles (handles s),
                              nbFiles := 0, nbHandles := 0, freeFrameNr := 0\<rparr>))))"

subsection \<open>Open and close\<close>

text \<open>
  \<open>memcmp(files[i].name, path, strlen(path)) == 0\<close>: the stored name is the string in
  the array up to its terminator; the comparison reads \<open>strlen(path)\<close> bytes of it,
  terminator included when the path is the longer one.
\<close>

definition name_matches :: "string \<Rightarrow> string \<Rightarrow> bool" where
  "name_matches stored path = (take (length path) (stored @ [CHR 0x00]) = path)"

function find_file :: "string \<Rightarrow> driver \<Rightarrow> nat \<Rightarrow> (nat option) option" where
  "find_file path s i =
     (if i < nbFiles s then
        (if i < length (files s) then
           (if name_matches (name (files s ! i)) path then Some (Some i)
            else find_file path s (Suc i))
         else None)
      else Some None)"
  by pat_completeness auto
termination
  by (relation "measure (\<lambda>(p, s, i). nbFiles s - i)") auto

declare find_file.simps [simp del]

definition block_open :: "platform \<Rightarrow> string \<Rightarrow> driver \<Rightarrow> (int \<times> driver) option" where
  "block_open P path s =
     (if \<not> isOn s then Some (- 1, s)
      else
        (case find_file path s 0 of
           None \<Rightarrow> None
         | Some found \<Rightarrow>
             (case (case found of
                      Some i \<Rightarrow> Some (i, s)
                    | None \<Rightarrow>
                        (if nbFiles s < length (files s)
                         then Some (nbFiles s,
                                    s\<lparr>files := (files s)[nbFiles s := createNewFile path],
                                      nbFiles := nbFiles s + 1\<rparr>)
                         else None)) of
                None \<Rightarrow> None
              | Some (i, s1) \<Rightarrow>
                  (if nbHandles s1 < length (handles s1)
                   then Some (int (nbHandles s1),
                              s1\<lparr>handles := (handles s1)[nbHandles s1 := openFile i],
                                 nbHandles := nbHandles s1 + 1\<rparr>)
                   else None))))"

definition valid_fd :: "int \<Rightarrow> driver \<Rightarrow> bool" where
  "valid_fd fd s = (0 \<le> fd \<and> nat fd < length (handles s))"

definition block_close :: "int \<Rightarrow> driver \<Rightarrow> (int \<times> driver) option" where
  "block_close fd s =
     (if \<not> isOn s then Some (- 1, s)
      else if \<not> valid_fd fd s then None
      else if status (handles s ! nat fd) = CLOSED then Some (- 1, s)
      else Some (0, s\<lparr>handles := (handles s)[nat fd := closeFile (handles s ! nat fd)]\<rparr>))"

subsection \<open>Read, write and seek\<close>

text \<open>
  The body of the \<open>while (remaining != 0)\<close> loop of \<open>block_read\<close>: it returns the
  cursor, the count that remains, the caller's buffer and the state after one run.
  \<open>buf\<close> is the caller's buffer as written so far (\<open>bufOffset\<close> is its length). The
  body is undefined where C is: a zero frame size (\<open>loc % 0\<close>), a negative cursor or
  a negative length for \<open>memcpy\<close>, a frame index outside the file's list.
\<close>

definition read_step ::
  "platform \<Rightarrow> nat \<Rightarrow> int \<Rightarrow> int \<Rightarrow> byte list \<Rightarrow> driver
     \<Rightarrow> (int \<times> int \<times> byte list \<times> driver) option" where
  "read_step P fi l remaining buf s =
     (if BLOCK_FRAME_SIZE P = 0 \<or> l < 0 \<or> remaining < 0 then None
      else
        (let fs = int (BLOCK_FRAME_SIZE P);
             frame_offset = l mod fs
         in if length (frames (files s ! fi)) \<le> nat (l div fs) then None
            else
              (let frame_nr = frames (files s ! fi) ! nat (l div fs)
               in case get_block_cache 0 frame_nr (bcache s) of
                    None \<Rightarrow> None
                  | Some (pointer, c1) \<Rightarrow>
                      (case (case pointer of
                               None \<Rightarrow>
                                 (case put_block_cache 0 frame_nr (device s frame_nr) c1 of
                                    None \<Rightarrow> None
                                  | Some (r, c2) \<Rightarrow> Some (device s frame_nr, c2))
                             | Some x \<Rightarrow> Some (x, c1)) of
                         None \<Rightarrow> None
                       | Some (frame, c3) \<Rightarrow>
                           (let data_size = (if fs - frame_offset > remaining then remaining
                                             else fs - frame_offset)
                            in Some (l + data_size, remaining - data_size,
                                     buf @ map frame [nat frame_offset..<nat (frame_offset + data_size)],
                                     s\<lparr>bcache := c3\<rparr>))))))"

lemma read_step_less:
  assumes "read_step P fi l remaining buf s = Some (l1, r1, buf1, s1)" and "remaining \<noteq> 0"
  shows "nat r1 < nat remaining"
proof -
  from assms(1) have fs: "0 < int (BLOCK_FRAME_SIZE P)" and r: "0 \<le> remaining"
    by (auto simp: read_step_def split: if_splits)
  define d where "d = (if int (BLOCK_FRAME_SIZE P) - l mod int (BLOCK_FRAME_SIZE P) > remaining
                       then remaining else int (BLOCK_FRAME_SIZE P) - l mod int (BLOCK_FRAME_SIZE P))"
  from assms(1) have "r1 = remaining - d"
    by (auto simp: read_step_def Let_def d_def split: if_splits option.splits)
  moreover have "l mod int (BLOCK_FRAME_SIZE P) < int (BLOCK_FRAME_SIZE P)"
    using fs by (rule pos_mod_bound)
  then have "0 < d" using r assms(2) by (simp add: d_def)
  ultimately show ?thesis using r assms(2) by linarith
qed

function read_loop ::
  "platform \<Rightarrow> nat \<Rightarrow> int \<Rightarrow> int \<Rightarrow> byte list \<Rightarrow> driver \<Rightarrow> (int \<times> byte list \<times> driver) option" where
  "read_loop P fi l remaining buf s =
     (if remaining \<noteq> 0 then
        (case read_step P fi l remaining buf s of
           None \<Rightarrow> None
         | Some (l1, r1, buf1, s1) \<Rightarrow> read_loop P fi l1 r1 buf1 s1)
      else Some (l, buf, s))"
  by pat_completeness auto
termination
  by (relation "measure (\<lambda>(P, fi, l, remaining, buf, s). nat remaining)")
     (auto dest: read_step_less)

declare read_loop.simps [simp del]

definition block_read :: "platform \<Rightarrow> int \<Rightarrow> int \<Rightarrow> driver \<Rightarrow> (int \<times> byte list \<times> driver) option" where
  "block_read P fd count s =
     (if \<not> isOn s then Some (- 1, [], s)
      else if \<not> valid_fd fd s then None
      else if status (handles s ! nat fd) = CLOSED then Some (- 1, [], s)
      else
        (case file_h (handles s ! nat fd) of
           None \<Rightarrow> None
         | Some fi \<Rightarrow>
             (if length (files s) \<le> fi then None
              else
                (let l = loc (handles s ! nat fd);
                     fileSize = size_f (files s ! fi);
                     count' = (if fileSize - l < count then fileSize - l else count)
                 in case read_loop P fi l count' [] s of
                      None \<Rightarrow> None
                    | Some (l', buf, s1) \<Rightarrow>
                        Some (count', buf,
                              s1\<lparr>handles := (handles s1)[nat fd :=
                                    (handles s1 ! nat fd)\<lparr>loc := l'\<rparr>]\<rparr>)))))"

text \<open>
  \<open>memcpy(frame + frame_offset, (char*)buf + bufOffset, data_size)\<close> on the local frame
  buffer.
\<close>

definition overlay :: "frame \<Rightarrow> nat \<Rightarrow> byte list \<Rightarrow> nat \<Rightarrow> nat \<Rightarrow> frame" where
  "overlay frame frame_offset buf bufOffset data_size =
     (\<lambda>j. if frame_offset \<le> j \<and> j < frame_offset + data_size
          then buf ! (bufOffset + (j - frame_offset)) else frame j)"

text \<open>
  The body of the \<open>while (remaining > 0)\<close> loop of \<open>block_write\<close>: it returns the
  cursor, the count that remains, \<open>bufOffset\<close> and the state after one run. \<open>buf\<close> is
  the caller's data; copying past its end is undefined.
\<close>

definition write_step ::
  "platform \<Rightarrow> nat \<Rightarrow> byte list \<Rightarrow> int \<Rightarrow> int \<Rightarrow> int \<Rightarrow> driver
     \<Rightarrow> (int \<times> int \<times> int \<times> driver) option" where
  "write_step P fi buf l remaining bufOffset s =
     (if BLOCK_FRAME_SIZE P = 0 \<or> l < 0 \<or> bufOffset < 0 then None
      else
        (let fs = int (BLOCK_FRAME_SIZE P)
         in if length (frames (files s ! fi)) \<le> nat (l div fs) then None
            else
              (let frame_nr = frames (files s ! fi) ! nat (l div fs);
                   frame_offset = l mod fs
               in case get_block_cache 0 frame_nr (bcache s) of
                    None \<Rightarrow> None
                  | Some (pointer, c1) \<Rightarrow>
                      (let frame0 = (case pointer of None \<Rightarrow> device s frame_nr | Some x \<Rightarrow> x);
                           data_size = (if fs - frame_offset > remaining then remaining
                                        else fs - frame_offset)
                       in if int (length buf) < bufOffset + data_size then None
                          else
                            (let frame1 = overlay frame0 (nat frame_offset) buf (nat bufOffset)
                                            (nat data_size)
                             in case put_block_cache 0 frame_nr frame1 c1 of
                                  None \<Rightarrow> None
                                | Some (r, c2) \<Rightarrow>
                                    Some (l + data_size, remaining - data_size,
                                          bufOffset + data_size,
                                          s\<lparr>device := (device s)(frame_nr := frame1),
                                            bcache := c2\<rparr>))))))"

lemma write_step_less:
  assumes "write_step P fi buf l remaining bufOffset s = Some (l1, r1, b1, s1)"
    and "0 < remaining"
  shows "nat r1 < nat remaining"
proof -
  from assms(1) have fs: "0 < int (BLOCK_FRAME_SIZE P)"
    by (auto simp: write_step_def split: if_splits)
  define d where "d = (if int (BLOCK_FRAME_SIZE P) - l mod int (BLOCK_FRAME_SIZE P) > remaining
                       then remaining else int (BLOCK_FRAME_SIZE P) - l mod int (BLOCK_FRAME_SIZE P))"
  from assms(1) have "r1 = remaining - d"
    by (auto simp: write_step_def Let_def d_def split: if_splits option.splits)
  moreover have "l mod int (BLOCK_FRAME_SIZE P) < int (BLOCK_FRAME_SIZE P)"
    using fs by (rule pos_mod_bound)
  then have "0 < d" using assms(2) by (simp add: d_def)
  ultimately show ?thesis using assms(2) by linarith
qed

function write_loop ::
  "platform \<Rightarrow> nat \<Rightarrow> byte list \<Rightarrow> int \<Rightarrow> int \<Rightarrow> int \<Rightarrow> driver \<Rightarrow> (int \<times> driver) option" where
  "write_loop P fi buf l remaining bufOffset s =
     (if remaining > 0 then
        (case write_step P fi buf l remaining bufOffset s of
           None \<Rightarrow> None
         | Some (l1, r1, b1, s1) \<Rightarrow> write_loop P fi buf l1 r1 b1 s1)
      else Some (l, s))"
  by pat_completeness auto
termination
  by (relation "measure (\<lambda>(P, fi, buf, l, remaining, bufOffset, s). nat remaining)")
     (auto dest: write_step_less)

declare write_loop.simps [simp del]

definition block_write :: "platform \<Rightarrow> int \<Rightarrow> byte list \<Rightarrow> int \<Rightarrow> driver \<Rightarrow> (int \<times> driver) option" where
  "block_write P fd buf count s =
     (if \<not> valid_fd fd s then None
      else if status (handles s ! nat fd) = CLOSED then Some (- 1, s)
      else
        (case file_h (handles s ! nat fd) of
           None \<Rightarrow> None
         | Some fi \<Rightarrow>
             (if length (files s) \<le> fi then None
              else
                (case allocateNewFrames P fi (loc (handles s ! nat fd)) count s of
                   (r, s1) \<Rightarrow>
                     (if r = - 1 then Some (- 1, s1)
                      else
                        (case write_loop P fi buf (loc (handles s ! nat fd)) count 0 s1 of
                           None \<Rightarrow> None
                         | Some (l', s2) \<Rightarrow>
                             Some (count,
                                   s2\<lparr>handles := (handles s2)[nat fd :=
                                         (handles s2 ! nat fd)\<lparr>loc := l'\<rparr>],
                                      files := (if size_f (files s2 ! fi) < l'
                                                then (files s2)[fi := (files s2 ! fi)\<lparr>size_f := l'\<rparr>]
                                                else files s2)\<rparr>)))))))"

text \<open>
  \<open>loc\<close> is a \<open>uint32_t\<close>: the comparison \<open>file->size < loc\<close> converts the size to
  unsigned, and the assignment to the cursor converts the position back to a signed
  32-bit value.
\<close>

definition block_seek :: "int \<Rightarrow> 32 word \<Rightarrow> driver \<Rightarrow> (int \<times> driver) option" where
  "block_seek fd pos s =
     (if \<not> valid_fd fd s then None
      else if status (handles s ! nat fd) = CLOSED then Some (- 1, s)
      else
        (case file_h (handles s ! nat fd) of
           None \<Rightarrow> None
         | Some fi \<Rightarrow>
             (if length (files s) \<le> fi then None
              else if (word_of_int (size_f (files s ! fi)) :: 32 word) < pos then Some (- 1, s)
              else Some (0, s\<lparr>handles := (handles s)[nat fd :=
                                 (handles s ! nat fd)\<lparr>loc := sint pos\<rparr>]\<rparr>))))"

section \<open>Specification vocabulary\<close>

text \<open>
  A handle the driver can work with: its index lies in the handle table and, when it is
  open, it points at an entry of the file table whose size is a non-negative 32-bit
  signed value.
\<close>

definition handle_ok :: "driver \<Rightarrow> int \<Rightarrow> bool" where
  "handle_ok s fd =
     (valid_fd fd s \<and>
      (status (handles s ! nat fd) = OPEN \<longrightarrow>
         (case file_h (handles s ! nat fd) of
            None \<Rightarrow> False
          | Some fi \<Rightarrow> fi < length (files s) \<and> 0 \<le> size_f (files s ! fi)
                        \<and> size_f (files s ! fi) < 2 ^ 31)))"

definition size_of_handle :: "driver \<Rightarrow> int \<Rightarrow> int" where
  "size_of_handle s fd =
     (case file_h (handles s ! nat fd) of None \<Rightarrow> 0 | Some fi \<Rightarrow> size_f (files s ! fi))"

subsection \<open>A small running system\<close>

text \<open>
  Frames of four bytes, a device of sixteen frames, two file slots and a cache of two
  entries: the state after power-on, \<open>open("a")\<close> and a write of the ten bytes
  \<open>1, ..., 10\<close>.
\<close>

definition frame_of :: "byte list \<Rightarrow> frame" where
  "frame_of xs = (\<lambda>j. if j < length xs then xs ! j else 0)"

definition demo_platform :: platform where
  "demo_platform = \<lparr>BLOCK_FRAME_SIZE = 4, DEVICE_FRAMES = 16,
                     file_image = (\<lambda>f. frame_of []), image_file = (\<lambda>x. zero_file)\<rparr>"

definition demo_device :: "int \<Rightarrow> frame" where
  "demo_device = (\<lambda>n. if n = 2 then frame_of [1, 2, 3, 4]
                       else if n = 3 then frame_of [5, 6, 7, 8]
                       else if n = 4 then frame_of [9, 10]
                       else frame_of [])"

definition demo_state :: driver where
  "demo_state =
     \<lparr>isOn = True, nbFiles = 1, nbHandles = 1, freeFrameNr = 5,
      files = [\<lparr>name = ''a'', size_f = 10, frames = [2, 3, 4]\<rparr>, zero_file],
      handles = [\<lparr>status = OPEN, file_h = Some 0, loc = 10\<rparr>, zero_handle],
      bcache = \<lparr>block_cache_max_items = 2,
                cache = [\<lparr>block = 0, frm = 4, access = 3, cacheFrame = frame_of [9, 10]\<rparr>,
                         \<lparr>block = 0, frm = 3, access = 2, cacheFrame = frame_of [5, 6, 7, 8]\<rparr>],
                putTracker = 2, lastAccess = 3, cacheOn = True\<rparr>,
      device = demo_device\<rparr>"

definition demo_at3 :: driver where
  "demo_at3 = demo_state\<lparr>handles := [\<lparr>status = OPEN, file_h = Some 0, loc = 3\<rparr>, zero_handle]\<rparr>"

text \<open>
  The cache as allocated: the array holds at least \<open>block_cache_max_items\<close> entries,
  and a cache that is on has room for at least one.
\<close>

definition cache_ok :: "cache_state \<Rightarrow> bool" where
  "cache_ok c = (block_cache_max_items c \<le> length (cache c) \<and>
                 (cacheOn c \<longrightarrow> 0 < block_cache_max_items c))"

text \<open>
  \<open>open_on s fd fi\<close>: \<open>fd\<close> is an open handle of the table on the file at slot \<open>fi\<close>.
  \<open>frames_cover P f n\<close>: the frame size is positive and the frames the file lists
  hold its first \<open>n\<close> bytes.
\<close>

definition open_on :: "driver \<Rightarrow> int \<Rightarrow> nat \<Rightarrow> bool" where
  "open_on s fd fi =
     (valid_fd fd s \<and> status (handles s ! nat fd) = OPEN \<and>
      file_h (handles s ! nat fd) = Some fi \<and> fi < length (files s))"

definition frames_cover :: "platform \<Rightarrow> file_t \<Rightarrow> int \<Rightarrow> bool" where
  "frames_cover P f n = (0 < BLOCK_FRAME_SIZE P \<and>
       n \<le> int (BLOCK_FRAME_SIZE P) * int (length (frames f)))"

text \<open>
  The two outcomes of \<open>block_open\<close>: a new handle on the existing entry \<open>i\<close>, or a new
  entry of zero size and no frames at the next free slot with a new handle on it.
\<close>

definition open_existing :: "driver \<Rightarrow> nat \<Rightarrow> driver" where
  "open_existing s i =
     s\<lparr>handles := (handles s)[nbHandles s := \<lparr>status = OPEN, file_h = Some i, loc = 0\<rparr>],
       nbHandles := nbHandles s + 1\<rparr>"

definition open_new :: "driver \<Rightarrow> string \<Rightarrow> driver" where
  "open_new s path =
     s\<lparr>files := (files s)[nbFiles s := \<lparr>name = path, size_f = 0, frames = []\<rparr>],
       nbFiles := nbFiles s + 1,
       handles := (handles s)[nbHandles s := \<lparr>status = OPEN, file_h = Some (nbFiles s), loc = 0\<rparr>],
       nbHandles := nbHandles s + 1\<rparr>"

definition demo_named :: driver where
  "demo_named = demo_state\<lparr>files := [\<lparr>name = ''ab'', size_f = 10, frames = [2, 3, 4]\<rparr>, zero_file]\<rparr>"

subsection \<open>Frames touched through the cache\<close>

text \<open>
  The cache calls of one run of the read loop (\<open>Rd\<close>: \<open>get\<close>, and on a miss \<open>put\<close> of the
  frame read from the device) and of the write loop (\<open>Wr\<close>: \<open>get\<close>, then \<open>put\<close> of the
  frame written), each with the frame number and the frame contents that go into the
  cache. \<open>first_cache C\<close> is the cache in the first power cycle of a process, after
  \<open>set_block_cache_size(C)\<close> and the first \<open>init_block_cache()\<close>, which finds the two
  counters at the 0 of their declarations (a later \<open>init_block_cache()\<close> finds them as
  the cycle before left them); \<open>cache_live C c\<close> says the cache is
  on with \<open>C > 0\<close> allocated entries.
\<close>

datatype touch = Rd int frame | Wr int frame

fun touched :: "touch \<Rightarrow> int" where
  "touched (Rd F d) = F"
| "touched (Wr F d) = F"

fun payload :: "touch \<Rightarrow> frame" where
  "payload (Rd F d) = d"
| "payload (Wr F d) = d"

fun cache_touch :: "touch \<Rightarrow> cache_state \<Rightarrow> cache_state option" where
  "cache_touch (Rd F d) c =
     (case get_block_cache 0 F c of
        None \<Rightarrow> None
      | Some (None, c1) \<Rightarrow> map_option snd (put_block_cache 0 F d c1)
      | Some (Some x, c1) \<Rightarrow> Some c1)"
| "cache_touch (Wr F d) c =
     (case get_block_cache 0 F c of
        None \<Rightarrow> None
      | Some (p, c1) \<Rightarrow> map_option snd (put_block_cache 0 F d c1))"

fun run_touches :: "touch list \<Rightarrow> cache_state \<Rightarrow> cache_state option" where
  "run_touches [] c = Some c"
| "run_touches (t # ts) c =
     (case cache_touch t c of None \<Rightarrow> None | Some c1 \<Rightarrow> run_touches ts c1)"

definition first_cache :: "nat \<Rightarrow> cache_state" where
  "first_cache C =
     snd (init_block_cache \<lparr>block_cache_max_items = C, cache = [], putTracker = 0,
                            lastAccess = 0, cacheOn = False\<rparr>)"

definition cache_live :: "nat \<Rightarrow> cache_state \<Rightarrow> bool" where
  "cache_live C c = (cacheOn c \<and> 0 < C \<and> block_cache_max_items c = C \<and> length (cache c) = C)"

text \<open>
  The cache after the frames of \<open>ts\<close> went in one by one while there was room: slot \<open>i\<close>
  holds the \<open>i\<close>-th frame with access count \<open>i + 1\<close>, the slots behind are empty.
\<close>

definition filled :: "nat \<Rightarrow> touch list \<Rightarrow> cache_state \<Rightarrow> bool" where
  "filled C ts c =
     (cache_live C c \<and> putTracker c = of_nat (length ts) \<and> lastAccess c = of_nat (length ts) \<and>
      (\<forall>i<length ts. frm (cache c ! i) = touched (ts ! i) \<and> access (cache c ! i) = of_nat (Suc i)) \<and>
      (\<forall>i. length ts \<le> i \<and> i < C \<longrightarrow> frm (cache c ! i) = - 1))"

subsection \<open>Coherence of the cache with the device\<close>

text \<open>
  \<open>cached c F\<close> is the frame a \<open>get_block_cache\<close> for \<open>F\<close> would hand out. A state is
  coherent when every such frame, for a frame number other than the empty-slot
  sentinel, equals what the device holds for \<open>F\<close>, which is what the last
  \<open>BLOCK_OP_WRFRME\<close> for \<open>F\<close> stored. \<open>slots_ok\<close> is the invariant behind it: the array
  is allocated exactly while the cache is on, no valid frame number sits in two slots,
  and every slot with a valid frame number holds the device's frame.
\<close>

definition cached :: "cache_state \<Rightarrow> int \<Rightarrow> frame option" where
  "cached c F =
     (case find_frm F c 0 of Some (Some i) \<Rightarrow> Some (cacheFrame (cache c ! i)) | _ \<Rightarrow> None)"

definition coherent :: "driver \<Rightarrow> bool" where
  "coherent s = (\<forall>F x. F \<noteq> - 1 \<and> cached (bcache s) F = Some x \<longrightarrow> x = device s F)"

definition slots_ok :: "cache_state \<Rightarrow> (int \<Rightarrow> frame) \<Rightarrow> bool" where
  "slots_ok c dev =
     ((if cacheOn c then length (cache c) = block_cache_max_items c else cache c = []) \<and>
      (\<forall>i<length (cache c). \<forall>j<length (cache c).
          frm (cache c ! i) = frm (cache c ! j) \<and> frm (cache c ! i) \<noteq> - 1 \<longrightarrow> i = j) \<and>
      (\<forall>i<length (cache c). frm (cache c ! i) \<noteq> - 1 \<longrightarrow>
          cacheFrame (cache c ! i) = dev (frm (cache c ! i))))"

text \<open>
  The states a process can get into: it starts with zeroed globals on some device, may
  set the cache size while the cache is off ("must be called before init"), and calls
  the driver's operations; a call that runs into undefined behaviour has no successor.
\<close>

inductive reachable :: "platform \<Rightarrow> driver \<Rightarrow> bool" for P :: platform where
  booted: "reachable P (boot max_total_files default_cache_size dev)"
| resized: "reachable P s \<Longrightarrow> \<not> cacheOn (bcache s) \<Longrightarrow>
     reachable P (s\<lparr>bcache := snd (set_block_cache_size max_frames (bcache s))\<rparr>)"
| powered_on: "reachable P s \<Longrightarrow> block_poweron P s = Some (r, s') \<Longrightarrow> reachable P s'"
| powered_off: "reachable P s \<Longrightarrow> block_poweroff P s = Some (r, s') \<Longrightarrow> reachable P s'"
| opened: "reachable P s \<Longrightarrow> block_open P path s = Some (r, s') \<Longrightarrow> reachable P s'"
| closed: "reachable P s \<Longrightarrow> block_close fd s = Some (r, s') \<Longrightarrow> reachable P s'"
| read_done: "reachable P s \<Longrightarrow> block_read P fd count s = Some (r, buf, s') \<Longrightarrow> reachable P s'"
| written: "reachable P s \<Longrightarrow> block_write P fd buf count s = Some (r, s') \<Longrightarrow> reachable P s'"
| sought: "reachable P s \<Longrightarrow> block_seek fd pos s = Some (r, s') \<Longrightarrow> reachable P s'"

text \<open>The byte of file \<open>fi\<close> at position \<open>p\<close>, as the device holds it.\<close>

definition byte_at :: "platform \<Rightarrow> driver \<Rightarrow> nat \<Rightarrow> int \<Rightarrow> byte" where
  "byte_at P s fi p =
     device s (frames (files s ! fi) ! nat (p div int (BLOCK_FRAME_SIZE P)))
       (nat (p mod int (BLOCK_FRAME_SIZE P)))"

section \<open>Properties of the cache and the driver\<close>

subsection \<open>Seek\<close>

lemma u32_less:
  "0 \<le> z \<Longrightarrow> z < 2 ^ 31 \<Longrightarrow> ((word_of_int z :: 32 word) < pos) = (z < uint pos)"
  by (simp add: word_less_def uint_word_of_int)

lemma s32_id: "uint (pos :: 32 word) < 2 ^ 31 \<Longrightarrow> sint pos = uint pos"
proof -
  assume a: "uint pos < 2 ^ 31"
  have "- (2 ^ 31) \<le> uint pos" by (rule order_trans [of _ 0]) simp_all
  with a show ?thesis by (simp add: sint_uint signed_take_bit_int_eq_self_iff)
qed

text \<open>
  C7. On a handle of the table, \<open>block_seek\<close> fails (returns \<open>-1\<close>) exactly when the
  handle is closed or the position is greater than the file's size; a position equal
  to the size is accepted. A failing seek leaves the whole state, so the cursor, as it
  was; a successful one returns 0 and changes nothing but the handle's cursor, which
  becomes the position. \<open>block_read\<close> and \<open>block_write\<close> start at that cursor.
\<close>

theorem block_seek_spec:
  assumes "handle_ok s fd"
  shows "\<exists>r s'. block_seek fd pos s = Some (r, s') \<and>
           (r = - 1 \<or> r = 0) \<and>
           (r = - 1 \<longleftrightarrow>
              status (handles s ! nat fd) = CLOSED \<or> size_of_handle s fd < uint pos) \<and>
           (r = - 1 \<longrightarrow> s' = s) \<and>
           (r = 0 \<longrightarrow>
              s' = s\<lparr>handles := (handles s)[nat fd := (handles s ! nat fd)\<lparr>loc := uint pos\<rparr>]\<rparr>
              \<and> loc (handles s' ! nat fd) = uint pos)"
proof (cases "status (handles s ! nat fd)")
  case CLOSED
  with assms show ?thesis by (simp add: block_seek_def handle_ok_def)
next
  case OPEN
  with assms obtain fi where fi: "file_h (handles s ! nat fd) = Some fi" "fi < length (files s)"
      "0 \<le> size_f (files s ! fi)" "size_f (files s ! fi) < 2 ^ 31"
    by (auto simp: handle_ok_def split: option.splits)
  from assms have v: "valid_fd fd s" by (simp add: handle_ok_def)
  show ?thesis
  proof (cases "size_f (files s ! fi) < uint pos")
    case True
    with OPEN fi v show ?thesis
      by (simp add: block_seek_def size_of_handle_def u32_less)
  next
    case False
    then have "uint pos < 2 ^ 31" using fi(4) by linarith
    then have "sint pos = uint pos" by (rule s32_id)
    with False OPEN fi v show ?thesis
      by (simp add: block_seek_def size_of_handle_def u32_less valid_fd_def)
  qed
qed

theorem block_seek_spec_witness:
  "handle_ok demo_state 0 \<and>
   (\<exists>s'. block_seek 0 3 demo_state = Some (0, s') \<and> loc (handles s' ! 0) = 3) \<and>
   block_seek 0 10 demo_state = Some (0, demo_state) \<and>
   block_seek 0 11 demo_state = Some (- 1, demo_state)"
proof -
  have h: "handle_ok demo_state 0"
    by (simp add: handle_ok_def demo_state_def valid_fd_def)
  have z: "size_of_handle demo_state 0 = 10" "status (handles demo_state ! 0) = OPEN"
    by (simp_all add: size_of_handle_def demo_state_def)
  from block_seek_spec [OF h, of 3] z
  have a: "\<exists>s'. block_seek 0 3 demo_state = Some (0, s') \<and> loc (handles s' ! 0) = 3"
    by auto
  from block_seek_spec [OF h, of 10] z
  have b: "block_seek 0 10 demo_state = Some (0, demo_state)"
    by (auto simp: demo_state_def)
  from block_seek_spec [OF h, of 11] z
  have c: "block_seek 0 11 demo_state = Some (- 1, demo_state)"
    by auto
  from h a b c show ?thesis by blast
qed

subsection \<open>What a read leaves alone\<close>

lemmas demo_eval = demo_at3_def demo_state_def demo_platform_def demo_device_def frame_of_def
  zero_file_def zero_handle_def valid_fd_def block_read_def read_loop.simps read_step_def
  get_block_cache_def put_block_cache_def find_frm.simps find_lru.simps Let_def upt_rec

lemma read_step_frame:
  assumes "read_step P fi l n buf s = Some (l1, r1, buf1, s1)"
  shows "(\<exists>c. s1 = s\<lparr>bcache := c\<rparr>) \<and> l1 + r1 = l + n \<and> 0 \<le> r1 \<and> l \<le> l1"
proof -
  from assms have fs: "0 < int (BLOCK_FRAME_SIZE P)" and r: "0 \<le> n"
    by (auto simp: read_step_def split: if_splits)
  have "l mod int (BLOCK_FRAME_SIZE P) < int (BLOCK_FRAME_SIZE P)"
    using fs by (rule pos_mod_bound)
  then have "l mod int (BLOCK_FRAME_SIZE P) \<le> int (BLOCK_FRAME_SIZE P)" by simp
  with assms r show ?thesis
    by (auto simp: read_step_def Let_def split: if_splits option.splits)
qed

lemma read_loop_frame:
  "read_loop P fi l n buf s = Some (l', buf', s') \<Longrightarrow>
     (\<exists>c. s' = s\<lparr>bcache := c\<rparr>) \<and> l' = l + n"
proof (induction P fi l n buf s rule: read_loop.induct)
  case (1 P fi l remaining buf s)
  show ?case
  proof (cases "remaining = 0")
    case True
    with "1.prems" have "s' = s" "l' = l" by (simp_all add: read_loop.simps)
    with True show ?thesis by (auto intro: exI [of _ "bcache s"])
  next
    case False
    with "1.prems" obtain l1 r1 buf1 s1
      where st: "read_step P fi l remaining buf s = Some (l1, r1, buf1, s1)"
        and rec: "read_loop P fi l1 r1 buf1 s1 = Some (l', buf', s')"
      by (subst (asm) read_loop.simps) (auto split: option.splits)
    from "1.IH" [OF False st refl refl refl rec]
    obtain c where "s' = s1\<lparr>bcache := c\<rparr>" and l': "l' = l1 + r1" by auto
    moreover from read_step_frame [OF st]
    obtain c1 where "s1 = s\<lparr>bcache := c1\<rparr>" and "l1 + r1 = l + remaining" by auto
    ultimately show ?thesis by auto
  qed
qed

lemma block_read_shape:
  assumes "block_read P fd count s = Some (r, buf, s')"
  shows "\<exists>c l'. s' = s\<lparr>bcache := c,
                       handles := (handles s)[nat fd := (handles s ! nat fd)\<lparr>loc := l'\<rparr>]\<rparr>"
proof (cases "\<not> isOn s \<or> status (handles s ! nat fd) = CLOSED")
  case True
  with assms have "s' = s" by (auto simp: block_read_def split: if_splits)
  then have "s' = s\<lparr>bcache := bcache s, handles := (handles s)[nat fd :=
                (handles s ! nat fd)\<lparr>loc := loc (handles s ! nat fd)\<rparr>]\<rparr>"
    by simp
  then show ?thesis by blast
next
  case False
  with assms obtain fi l n l' s1 where
    rl: "read_loop P fi l n [] s = Some (l', buf, s1)"
    and s': "s' = s1\<lparr>handles := (handles s1)[nat fd := (handles s1 ! nat fd)\<lparr>loc := l'\<rparr>]\<rparr>"
    by (auto simp: block_read_def Let_def split: if_splits option.splits)
  from read_loop_frame [OF rl] obtain c where "s1 = s\<lparr>bcache := c\<rparr>" by auto
  with s' show ?thesis by auto
qed

text \<open>
  C10. Whatever \<open>block_read\<close> returns, the state after it differs from the state before
  only in the cache and in the cursor of the handle that was read: the device holds the
  same frames (the loop has no \<open>BLOCK_OP_WRFRME\<close>), the file table (sizes, names and
  frame lists), the file and handle counts, the next free frame and the power flag are
  the same, every other handle is the same, and the handle itself keeps its status and
  its file.
\<close>

theorem block_read_frame:
  assumes "block_read P fd count s = Some (r, buf, s')"
  shows "device s' = device s \<and> files s' = files s \<and> isOn s' = isOn s \<and>
         nbFiles s' = nbFiles s \<and> nbHandles s' = nbHandles s \<and>
         freeFrameNr s' = freeFrameNr s \<and>
         length (handles s') = length (handles s) \<and>
         (\<forall>k. k \<noteq> nat fd \<longrightarrow> handles s' ! k = handles s ! k) \<and>
         status (handles s' ! nat fd) = status (handles s ! nat fd) \<and>
         file_h (handles s' ! nat fd) = file_h (handles s ! nat fd)"
proof -
  from block_read_shape [OF assms] obtain c l' where
    s': "s' = s\<lparr>bcache := c, handles := (handles s)[nat fd := (handles s ! nat fd)\<lparr>loc := l'\<rparr>]\<rparr>"
    by blast
  show ?thesis
  proof (cases "nat fd < length (handles s)")
    case True
    with s' show ?thesis by simp
  next
    case False
    with s' show ?thesis by (simp add: list_update_beyond)
  qed
qed

theorem block_read_frame_witness:
  "\<exists>s'. block_read demo_platform 0 50 demo_at3 = Some (7, [4, 5, 6, 7, 8, 9, 10], s') \<and>
        device s' = device demo_at3 \<and> files s' = files demo_at3 \<and>
        handles s' ! 1 = handles demo_at3 ! 1 \<and> loc (handles s' ! 0) = 10 \<and>
        map frm (cache (bcache s')) = [3, 4]"
proof -
  obtain s' where r: "block_read demo_platform 0 50 demo_at3 = Some (7, [4, 5, 6, 7, 8, 9, 10], s')"
    and c: "loc (handles s' ! 0) = 10" "map frm (cache (bcache s')) = [3, 4]"
    by (simp add: demo_eval)
  from block_read_frame [OF r] r c show ?thesis by simp
qed

subsection \<open>The cache never leaves its array\<close>

lemma find_frm_total:
  "block_cache_max_items c \<le> length (cache c) \<Longrightarrow> \<exists>r. find_frm F c i = Some r"
proof (induction F c i rule: find_frm.induct)
  case (1 F c i)
  then show ?case by (subst find_frm.simps) auto
qed

lemma find_frm_hit:
  "find_frm F c i = Some (Some j) \<Longrightarrow>
     i \<le> j \<and> j < block_cache_max_items c \<and> j < length (cache c) \<and> frm (cache c ! j) = F \<and>
     (\<forall>k. i \<le> k \<and> k < j \<longrightarrow> frm (cache c ! k) \<noteq> F)"
proof (induction F c i rule: find_frm.induct)
  case (1 F c i)
  show ?case
  proof (cases "frm (cache c ! i) = F")
    case True
    with "1.prems" show ?thesis by (subst (asm) find_frm.simps) (auto split: if_splits)
  next
    case False
    with "1.prems" have a: "i < block_cache_max_items c" "i < length (cache c)"
      and r: "find_frm F c (Suc i) = Some (Some j)"
      by (subst (asm) find_frm.simps, auto split: if_splits)+
    from "1.IH" [OF a False r]
    have ih: "Suc i \<le> j" "j < block_cache_max_items c" "j < length (cache c)"
      "frm (cache c ! j) = F" "\<And>k. Suc i \<le> k \<Longrightarrow> k < j \<longrightarrow> frm (cache c ! k) \<noteq> F"
      by auto
    have "k < j \<longrightarrow> frm (cache c ! k) \<noteq> F" if "i \<le> k" for k
    proof (cases "k = i")
      case True
      with False show ?thesis by simp
    next
      case ne: False
      with that have "Suc i \<le> k" by simp
      then show ?thesis by (rule ih(5))
    qed
    with ih show ?thesis by auto
  qed
qed

lemma find_frm_miss:
  "find_frm F c i = Some None \<Longrightarrow>
     (\<forall>k. i \<le> k \<and> k < block_cache_max_items c \<longrightarrow> k < length (cache c) \<and> frm (cache c ! k) \<noteq> F)"
proof (induction F c i rule: find_frm.induct)
  case (1 F c i)
  show ?case
  proof (cases "i < block_cache_max_items c")
    case False
    then show ?thesis by auto
  next
    case True
    with "1.prems" have a: "i < length (cache c)" "frm (cache c ! i) \<noteq> F"
      and r: "find_frm F c (Suc i) = Some None"
      by (subst (asm) find_frm.simps, auto split: if_splits)+
    from "1.IH" [OF True a r]
    have ih: "\<And>k. Suc i \<le> k \<Longrightarrow> k < block_cache_max_items c \<longrightarrow>
                 k < length (cache c) \<and> frm (cache c ! k) \<noteq> F"
      by auto
    have "k < block_cache_max_items c \<longrightarrow> k < length (cache c) \<and> frm (cache c ! k) \<noteq> F"
      if "i \<le> k" for k
    proof (cases "k = i")
      case True
      with a show ?thesis by simp
    next
      case ne: False
      with that have "Suc i \<le> k" by simp
      then show ?thesis by (rule ih)
    qed
    then show ?thesis by auto
  qed
qed

lemma find_lru_total:
  "block_cache_max_items c \<le> length (cache c) \<Longrightarrow> \<exists>r. find_lru c i rt ix = Some r"
proof (induction c i rt ix rule: find_lru.induct)
  case (1 c i rt ix)
  then show ?case by (subst find_lru.simps) auto
qed

lemma find_lru_index:
  "find_lru c i rt ix = Some r \<Longrightarrow> r = ix \<or> (\<exists>k. i \<le> k \<and> k < block_cache_max_items c \<and> r = of_nat k)"
proof (induction c i rt ix rule: find_lru.induct)
  case (1 c i rt ix)
  show ?case
  proof (cases "i < block_cache_max_items c")
    case False
    with "1.prems" show ?thesis by (subst (asm) find_lru.simps) auto
  next
    case True
    with "1.prems" have len: "i < length (cache c)"
      by (subst (asm) find_lru.simps) (auto split: if_splits)
    show ?thesis
    proof (cases "access (cache c ! i) < rt")
      case lt: True
      with "1.prems" True len have "find_lru c (Suc i) (access (cache c ! i)) (of_nat i) = Some r"
        by (subst (asm) find_lru.simps) auto
      from "1.IH"(1) [OF True len lt this] True show ?thesis
        by (auto intro: Suc_leD)
    next
      case ge: False
      with "1.prems" True len have "find_lru c (Suc i) rt ix = Some r"
        by (subst (asm) find_lru.simps) auto
      from "1.IH"(2) [OF True len ge this] show ?thesis
        by (auto intro: Suc_leD)
    qed
  qed
qed

lemma unat_of_nat_le: "unat (of_nat k :: 16 word) \<le> k"
  by (simp add: unat_of_nat)

lemma get_total:
  assumes "cache_ok c"
  shows "\<exists>r c'. get_block_cache b F c = Some (r, c') \<and> cache_ok c'"
proof -
  from assms have m: "block_cache_max_items c \<le> length (cache c)" by (simp add: cache_ok_def)
  from find_frm_total [OF m] obtain r where r: "find_frm F c 0 = Some r" by blast
  with assms show ?thesis
    by (cases r) (auto simp: get_block_cache_def cache_ok_def)
qed

lemma put_total:
  assumes "cache_ok c"
  shows "\<exists>r c'. put_block_cache b F x c = Some (r, c') \<and> cache_ok c'"
proof (cases "cacheOn c")
  case False
  with assms show ?thesis by (simp add: put_block_cache_def)
next
  case True
  from assms have m: "block_cache_max_items c \<le> length (cache c)" by (simp add: cache_ok_def)
  from assms True have pos: "0 < block_cache_max_items c" by (simp add: cache_ok_def)
  from find_frm_total [OF m] obtain r where r: "find_frm F c 0 = Some r" by blast
  show ?thesis
  proof (cases r)
    case (Some i)
    with r True assms show ?thesis by (auto simp: put_block_cache_def cache_ok_def)
  next
    case None
    show ?thesis
    proof (cases "unat (putTracker c) < block_cache_max_items c")
      case pt: True
      with r None True assms m show ?thesis by (auto simp: put_block_cache_def cache_ok_def)
    next
      case pt: False
      from find_lru_total [OF m] obtain ix where ix: "find_lru c 0 (access (cache c ! 0)) 0 = Some ix"
        by blast
      from find_lru_index [OF ix] pos m have "unat ix < length (cache c)"
        using unat_of_nat_le by (auto intro: le_less_trans less_le_trans)
      with r None True assms m pt ix pos show ?thesis
        by (auto simp: put_block_cache_def cache_ok_def)
    qed
  qed
qed

subsection \<open>What a read returns\<close>

lemma frame_index_less:
  assumes "0 < fs" "0 \<le> l" "l < int fs * int n"
  shows "nat (l div int fs) < n"
proof -
  from assms have "nat l < n * fs" by (simp add: nat_less_iff mult.commute)
  then have "nat l div fs < n" by (simp add: div_less_iff_less_mult assms(1))
  moreover have "nat (l div int fs) = nat l div fs"
    using assms(2) by (simp add: nat_div_distrib)
  ultimately show ?thesis by simp
qed

lemma read_step_total:
  assumes ok: "cache_ok (bcache s)" and cov: "frames_cover P (files s ! fi) (l + n)"
    and l: "0 \<le> l" and n: "0 < n"
  shows "\<exists>l1 r1 buf1 s1. read_step P fi l n buf s = Some (l1, r1, buf1, s1) \<and>
           cache_ok (bcache s1) \<and> int (length buf1) = int (length buf) + (n - r1)"
proof -
  let ?fs = "int (BLOCK_FRAME_SIZE P)"
  from cov have fs: "0 < BLOCK_FRAME_SIZE P"
    and le: "l + n \<le> ?fs * int (length (frames (files s ! fi)))"
    by (simp_all add: frames_cover_def)
  from le n have "l < ?fs * int (length (frames (files s ! fi)))" by linarith
  from frame_index_less [OF fs l this]
  have idx: "nat (l div ?fs) < length (frames (files s ! fi))" .
  define F where "F = frames (files s ! fi) ! nat (l div ?fs)"
  from get_total [OF ok] obtain p c1 where
    g: "get_block_cache 0 F (bcache s) = Some (p, c1)" and ok1: "cache_ok c1" by blast
  have m0: "0 \<le> l mod ?fs" and m1: "l mod ?fs < ?fs" using fs by simp_all
  define d where "d = (if ?fs - l mod ?fs > n then n else ?fs - l mod ?fs)"
  have d: "0 < d" using m1 n by (simp add: d_def)
  have len: "int (length [nat (l mod ?fs)..<nat (l mod ?fs + d)]) = d"
    using m0 d by simp
  show ?thesis
  proof (cases p)
    case None
    from put_total [OF ok1] obtain r c2 where
      "put_block_cache 0 F (device s F) c1 = Some (r, c2)" and "cache_ok c2" by blast
    with None g idx fs l n len show ?thesis
      by (simp add: read_step_def Let_def F_def [symmetric] d_def [symmetric])
  next
    case (Some x)
    with g idx fs l n len ok1 show ?thesis
      by (simp add: read_step_def Let_def F_def [symmetric] d_def [symmetric])
  qed
qed

lemma read_loop_total:
  "cache_ok (bcache s) \<Longrightarrow> frames_cover P (files s ! fi) (l + n) \<Longrightarrow> 0 \<le> l \<Longrightarrow> 0 \<le> n \<Longrightarrow>
     \<exists>buf' s'. read_loop P fi l n buf s = Some (l + n, buf', s') \<and>
        int (length buf') = int (length buf) + n \<and> cache_ok (bcache s')"
proof (induction P fi l n buf s rule: read_loop.induct)
  case (1 P fi l remaining buf s)
  show ?case
  proof (cases "remaining = 0")
    case True
    with "1.prems" show ?thesis by (simp add: read_loop.simps)
  next
    case False
    with "1.prems" have pos: "0 < remaining" by simp
    from read_step_total [OF "1.prems"(1,2,3) pos, of buf] obtain l1 r1 buf1 s1 where
      st: "read_step P fi l remaining buf s = Some (l1, r1, buf1, s1)"
      and ok1: "cache_ok (bcache s1)"
      and len1: "int (length buf1) = int (length buf) + (remaining - r1)" by blast
    from read_step_frame [OF st] obtain c where
      s1: "s1 = s\<lparr>bcache := c\<rparr>" and sum: "l1 + r1 = l + remaining" and r1: "0 \<le> r1" and l1: "l \<le> l1"
      by blast
    from "1.prems"(2) s1 sum have cov1: "frames_cover P (files s1 ! fi) (l1 + r1)" by simp
    from "1.prems"(3) l1 have "0 \<le> l1" by simp
    from "1.IH" [OF False st refl refl refl ok1 cov1 this r1]
    obtain buf' s' where "read_loop P fi l1 r1 buf1 s1 = Some (l1 + r1, buf', s')"
      "int (length buf') = int (length buf1) + r1" "cache_ok (bcache s')" by blast
    with False st sum len1 show ?thesis
      by (subst read_loop.simps) simp
  qed
qed

text \<open>
  C2. On a powered-on system, for an open handle whose cursor lies between 0 and the
  file's size, whose file lists frames for all of its bytes, and for a count that is
  not negative, \<open>block_read\<close> returns \<open>min count (size - cursor)\<close>, puts that many bytes
  into the buffer, and advances the cursor by exactly that amount. At end-of-file the
  result is 0, not \<open>-1\<close>.
\<close>

theorem block_read_result:
  assumes on: "isOn s" and h: "open_on s fd fi" and ok: "cache_ok (bcache s)"
    and cov: "frames_cover P (files s ! fi) (size_f (files s ! fi))"
    and l: "0 \<le> loc (handles s ! nat fd)" "loc (handles s ! nat fd) \<le> size_f (files s ! fi)"
    and n: "0 \<le> count"
  shows "\<exists>buf s'. block_read P fd count s =
             Some (min count (size_f (files s ! fi) - loc (handles s ! nat fd)), buf, s') \<and>
           int (length buf) = min count (size_f (files s ! fi) - loc (handles s ! nat fd)) \<and>
           loc (handles s' ! nat fd) =
             loc (handles s ! nat fd) + min count (size_f (files s ! fi) - loc (handles s ! nat fd))"
proof -
  let ?l = "loc (handles s ! nat fd)"
  let ?n = "min count (size_f (files s ! fi) - ?l)"
  have n': "0 \<le> ?n" using l n by simp
  have "?l + ?n \<le> size_f (files s ! fi)" by simp
  with cov have cov': "frames_cover P (files s ! fi) (?l + ?n)"
    by (simp add: frames_cover_def)
  from read_loop_total [OF ok cov' l(1) n', of "[]"] obtain buf s1 where
    rl: "read_loop P fi ?l ?n [] s = Some (?l + ?n, buf, s1)" and len: "int (length buf) = ?n"
    by auto
  from read_loop_frame [OF rl] obtain c where s1: "s1 = s\<lparr>bcache := c\<rparr>" by blast
  have eq: "(if size_f (files s ! fi) - ?l < count then size_f (files s ! fi) - ?l else count) = ?n"
    by (simp add: min_def)
  from h have v: "valid_fd fd s" "status (handles s ! nat fd) = OPEN"
    "file_h (handles s ! nat fd) = Some fi" "fi < length (files s)"
    by (simp_all add: open_on_def)
  from v(1) have "nat fd < length (handles s)" by (simp add: valid_fd_def)
  with on v rl len s1 show ?thesis
    by (simp add: block_read_def Let_def eq)
qed

theorem block_read_result_witness:
  "isOn demo_at3 \<and> open_on demo_at3 0 0 \<and> cache_ok (bcache demo_at3) \<and>
   frames_cover demo_platform (files demo_at3 ! 0) (size_f (files demo_at3 ! 0)) \<and>
   (\<exists>buf s'. block_read demo_platform 0 50 demo_at3 = Some (7, buf, s') \<and>
      length buf = 7 \<and> loc (handles s' ! 0) = 10) \<and>
   (\<exists>buf s'. block_read demo_platform 0 50 demo_state = Some (0, buf, s'))"
proof -
  have a: "isOn demo_at3" "open_on demo_at3 0 0" "cache_ok (bcache demo_at3)"
    "frames_cover demo_platform (files demo_at3 ! 0) (size_f (files demo_at3 ! 0))"
    "0 \<le> loc (handles demo_at3 ! nat 0)"
    "loc (handles demo_at3 ! nat 0) \<le> size_f (files demo_at3 ! 0)"
    by (simp_all add: demo_at3_def demo_state_def demo_platform_def open_on_def valid_fd_def
        cache_ok_def frames_cover_def)
  have b: "isOn demo_state" "open_on demo_state 0 0" "cache_ok (bcache demo_state)"
    "frames_cover demo_platform (files demo_state ! 0) (size_f (files demo_state ! 0))"
    "0 \<le> loc (handles demo_state ! nat 0)"
    "loc (handles demo_state ! nat 0) \<le> size_f (files demo_state ! 0)"
    by (simp_all add: demo_state_def demo_platform_def open_on_def valid_fd_def
        cache_ok_def frames_cover_def)
  have v: "size_f (files demo_at3 ! 0) = 10" "loc (handles demo_at3 ! nat 0) = 3"
    "size_f (files demo_state ! 0) = 10" "loc (handles demo_state ! nat 0) = 10"
    by (simp_all add: demo_at3_def demo_state_def)
  from block_read_result [OF a, of 50] v
  have c: "\<exists>buf s'. block_read demo_platform 0 50 demo_at3 = Some (7, buf, s') \<and>
      length buf = 7 \<and> loc (handles s' ! 0) = 10"
    by simp
  from block_read_result [OF b, of 50] v
  have d: "\<exists>buf s'. block_read demo_platform 0 50 demo_state = Some (0, buf, s')"
    by auto
  from a(1-4) c d show ?thesis by blast
qed

subsection \<open>What a write returns\<close>

lemma write_step_frame:
  assumes "write_step P fi buf l n b s = Some (l1, r1, b1, s1)" and "0 < n"
  shows "s1 = s\<lparr>device := device s1, bcache := bcache s1\<rparr> \<and> l1 + r1 = l + n \<and> 0 \<le> r1 \<and> l \<le> l1
          \<and> b1 - b = l1 - l"
proof -
  from assms have fs: "0 < int (BLOCK_FRAME_SIZE P)"
    by (auto simp: write_step_def split: if_splits)
  have "l mod int (BLOCK_FRAME_SIZE P) < int (BLOCK_FRAME_SIZE P)"
    using fs by (rule pos_mod_bound)
  then have "l mod int (BLOCK_FRAME_SIZE P) \<le> int (BLOCK_FRAME_SIZE P)" by simp
  with assms show ?thesis
    by (auto simp: write_step_def Let_def split: if_splits option.splits)
qed

lemma write_loop_frame:
  "write_loop P fi buf l n b s = Some (l', s') \<Longrightarrow>
     s' = s\<lparr>device := device s', bcache := bcache s'\<rparr> \<and> l' = l + max 0 n"
proof (induction P fi buf l n b s rule: write_loop.induct)
  case (1 P fi buf l remaining b s)
  show ?case
  proof (cases "0 < remaining")
    case False
    with "1.prems" have "s' = s" "l' = l" by (simp_all add: write_loop.simps)
    with False show ?thesis by (simp add: max_def)
  next
    case True
    with "1.prems" obtain l1 r1 b1 s1
      where st: "write_step P fi buf l remaining b s = Some (l1, r1, b1, s1)"
        and rec: "write_loop P fi buf l1 r1 b1 s1 = Some (l', s')"
      by (subst (asm) write_loop.simps) (auto split: option.splits)
    from "1.IH" [OF True st refl refl refl rec]
    have a: "s' = s1\<lparr>device := device s', bcache := bcache s'\<rparr>" and l': "l' = l1 + max 0 r1" by auto
    from write_step_frame [OF st True]
    have b: "s1 = s\<lparr>device := device s1, bcache := bcache s1\<rparr>" and "l1 + r1 = l + remaining"
      and "0 \<le> r1" by auto
    from a b have "s' = s\<lparr>device := device s', bcache := bcache s'\<rparr>"
      by (metis (no_types) driver.update_convs(7,8) driver.surjective driver.select_convs)
    then show ?thesis using True l' \<open>l1 + r1 = l + remaining\<close> \<open>0 \<le> r1\<close> by auto
  qed
qed

lemma allocateNewFrames_frame:
  assumes "allocateNewFrames P fi cur count s = (r, s1)" and "fi < length (files s)"
  shows "s1 = s\<lparr>files := (files s)[fi := (files s ! fi)\<lparr>frames := frames (files s1 ! fi)\<rparr>],
               freeFrameNr := freeFrameNr s1\<rparr>"
  using assms by (auto simp: allocateNewFrames_def Let_def split: if_splits)

text \<open>
  C3. A write that succeeds (its result is not negative) returns \<open>count\<close>, advances the
  handle's cursor by exactly \<open>count\<close>, and leaves the file's size at the maximum of
  its previous size and the final cursor; no entry of the file table has a smaller
  size afterwards.
\<close>

theorem block_write_result:
  assumes w: "block_write P fd buf count s = Some (r, s')" and r: "0 \<le> r"
  shows "r = count \<and>
         loc (handles s' ! nat fd) = loc (handles s ! nat fd) + count \<and>
         size_of_handle s' fd = max (size_of_handle s fd) (loc (handles s' ! nat fd)) \<and>
         (\<forall>j. size_f (files s ! j) \<le> size_f (files s' ! j))"
proof -
  from w r have v: "valid_fd fd s" and op: "status (handles s ! nat fd) \<noteq> CLOSED"
    by (auto simp: block_write_def split: if_splits)
  from w v op obtain fi where fi: "file_h (handles s ! nat fd) = Some fi" "fi < length (files s)"
    by (auto simp: block_write_def split: if_splits option.splits)
  let ?l = "loc (handles s ! nat fd)"
  obtain r0 s1 where al: "allocateNewFrames P fi ?l count s = (r0, s1)" by (cases "allocateNewFrames P fi ?l count s")
  from w r v op fi al have r0: "r0 \<noteq> - 1"
    by (auto simp: block_write_def split: if_splits)
  with w v op fi al obtain l' s2 where wl: "write_loop P fi buf ?l count 0 s1 = Some (l', s2)"
    and rc: "r = count"
    and s': "s' = s2\<lparr>handles := (handles s2)[nat fd := (handles s2 ! nat fd)\<lparr>loc := l'\<rparr>],
                     files := (if size_f (files s2 ! fi) < l'
                               then (files s2)[fi := (files s2 ! fi)\<lparr>size_f := l'\<rparr>]
                               else files s2)\<rparr>"
    by (auto simp: block_write_def split: if_splits option.splits)
  define d c fr n where "d = device s2" and "c = bcache s2" and "fr = frames (files s1 ! fi)"
    and "n = freeFrameNr s1"
  from write_loop_frame [OF wl] r rc have
    s2: "s2 = s1\<lparr>device := d, bcache := c\<rparr>" and l': "l' = ?l + count"
    by (auto simp: d_def c_def)
  from allocateNewFrames_frame [OF al fi(2)] have
    s1: "s1 = s\<lparr>files := (files s)[fi := (files s ! fi)\<lparr>frames := fr\<rparr>], freeFrameNr := n\<rparr>"
    by (simp add: fr_def n_def)
  from v have lt: "nat fd < length (handles s)" by (simp add: valid_fd_def)
  have h': "handles s' = (handles s)[nat fd := (handles s ! nat fd)\<lparr>loc := l'\<rparr>]"
    by (simp add: s' s2 s1)
  have sz: "size_f (files s2 ! fi) = size_f (files s ! fi)"
    using fi(2) by (simp add: s2 s1)
  have f': "files s' = (files s)[fi := (files s ! fi)\<lparr>frames := fr,
               size_f := max (size_f (files s ! fi)) l'\<rparr>]"
    using fi(2) by (auto simp: s' s2 s1 max_def intro: nth_equalityI)
  have a: "loc (handles s' ! nat fd) = ?l + count" using lt by (simp add: h' l')
  have b: "size_of_handle s' fd = max (size_of_handle s fd) (loc (handles s' ! nat fd))"
    using lt fi by (simp add: size_of_handle_def h' f' l')
  have c: "size_f (files s ! j) \<le> size_f (files s' ! j)" for j
    using fi(2) by (cases "j = fi") (simp_all add: f')
  from rc a b c show ?thesis by blast
qed

lemmas demo_write_eval = demo_state_def demo_platform_def demo_device_def frame_of_def
  zero_file_def zero_handle_def valid_fd_def block_write_def write_loop.simps write_step_def
  allocateNewFrames_def get_block_cache_def put_block_cache_def find_frm.simps find_lru.simps
  Let_def upt_rec

theorem block_write_result_witness:
  "\<exists>s'. block_write demo_platform 0 [11, 12, 13] 3 demo_state = Some (3, s') \<and>
        loc (handles s' ! 0) = 13 \<and> size_of_handle s' 0 = 13 \<and>
        frames (files s' ! 0) = [2, 3, 4, 5]"
proof -
  obtain s' where w: "block_write demo_platform 0 [11, 12, 13] 3 demo_state = Some (3, s')"
    and f: "frames (files s' ! 0) = [2, 3, 4, 5]"
    by (simp add: demo_write_eval)
  have "loc (handles demo_state ! nat 0) = 10" "size_of_handle demo_state 0 = 10"
    by (simp_all add: demo_state_def size_of_handle_def)
  with block_write_result [OF w] w f show ?thesis by simp
qed

subsection \<open>Open\<close>

lemma name_matches_prefix:
  assumes "CHR 0x00 \<notin> set path"
  shows "name_matches stored path = prefix path stored"
proof (cases "length path \<le> length stored")
  case True
  then have "take (length path) (stored @ [CHR 0x00]) = take (length path) stored" by simp
  moreover have "(take (length path) stored = path) = prefix path stored"
    by (metis True append_eq_conv_conj le_add_diff_inverse length_append prefix_def take_is_prefix prefixE)
  ultimately show ?thesis by (simp add: name_matches_def)
next
  case False
  then have "take (length path) (stored @ [CHR 0x00]) = stored @ [CHR 0x00]" by simp
  moreover from assms have "stored @ [CHR 0x00] \<noteq> path" by auto
  moreover from False have "\<not> prefix path stored" by (auto dest: prefix_length_le)
  ultimately show ?thesis by (simp add: name_matches_def)
qed

lemma find_file_total:
  "nbFiles s \<le> length (files s) \<Longrightarrow> \<exists>r. find_file path s i = Some r"
proof (induction path s i rule: find_file.induct)
  case (1 path s i)
  then show ?case by (subst find_file.simps) auto
qed

lemma find_file_hit:
  "find_file path s i = Some (Some j) \<Longrightarrow>
     i \<le> j \<and> j < nbFiles s \<and> j < length (files s) \<and> name_matches (name (files s ! j)) path \<and>
     (\<forall>k. i \<le> k \<and> k < j \<longrightarrow> \<not> name_matches (name (files s ! k)) path)"
proof (induction path s i rule: find_file.induct)
  case (1 path s i)
  show ?case
  proof (cases "name_matches (name (files s ! i)) path")
    case True
    with "1.prems" show ?thesis by (subst (asm) find_file.simps) (auto split: if_splits)
  next
    case False
    with "1.prems" have a: "i < nbFiles s" "i < length (files s)"
      and r: "find_file path s (Suc i) = Some (Some j)"
      by (subst (asm) find_file.simps, auto split: if_splits)+
    from "1.IH" [OF a False r]
    have ih: "Suc i \<le> j" "j < nbFiles s" "j < length (files s)"
      "name_matches (name (files s ! j)) path"
      "\<And>k. Suc i \<le> k \<Longrightarrow> k < j \<longrightarrow> \<not> name_matches (name (files s ! k)) path"
      by auto
    have "k < j \<longrightarrow> \<not> name_matches (name (files s ! k)) path" if "i \<le> k" for k
    proof (cases "k = i")
      case True
      with False show ?thesis by simp
    next
      case ne: False
      with that have "Suc i \<le> k" by simp
      then show ?thesis by (rule ih(5))
    qed
    with ih show ?thesis by auto
  qed
qed

lemma find_file_miss:
  "find_file path s i = Some None \<Longrightarrow>
     (\<forall>k. i \<le> k \<and> k < nbFiles s \<longrightarrow> \<not> name_matches (name (files s ! k)) path)"
proof (induction path s i rule: find_file.induct)
  case (1 path s i)
  show ?case
  proof (cases "i < nbFiles s")
    case False
    then show ?thesis by auto
  next
    case True
    with "1.prems" have a: "i < length (files s)" "\<not> name_matches (name (files s ! i)) path"
      and r: "find_file path s (Suc i) = Some None"
      by (subst (asm) find_file.simps, auto split: if_splits)+
    from "1.IH" [OF True a r]
    have ih: "\<And>k. Suc i \<le> k \<Longrightarrow> k < nbFiles s \<longrightarrow> \<not> name_matches (name (files s ! k)) path"
      by auto
    have "k < nbFiles s \<longrightarrow> \<not> name_matches (name (files s ! k)) path" if "i \<le> k" for k
    proof (cases "k = i")
      case True
      with a show ?thesis by simp
    next
      case ne: False
      with that have "Suc i \<le> k" by simp
      then show ?thesis by (rule ih)
    qed
    then show ?thesis by auto
  qed
qed

text \<open>
  C9. \<open>block_open\<close> compares only the first \<open>strlen(path)\<close> bytes of each stored name,
  which for a C string (no NUL inside) is the test "\<open>path\<close> is a prefix of the name".
  On a powered-on system with room for a handle: when \<open>path\<close> is a prefix of the name
  of some existing file \<open>j\<close>, the call returns a new handle on the first entry \<open>i \<le> j\<close>
  whose name has that prefix, and the file table and its count are unchanged; when no
  existing name has the prefix and the table has room, the call appends the entry
  \<open>(path, size 0, no frames)\<close> at slot \<open>nbFiles\<close> and returns a new handle on it.
\<close>

theorem block_open_prefix:
  assumes on: "isOn s" and nf: "nbFiles s \<le> length (files s)"
    and nh: "nbHandles s < length (handles s)" and nul: "CHR 0x00 \<notin> set path"
  shows "(\<forall>j. j < nbFiles s \<and> prefix path (name (files s ! j)) \<longrightarrow>
            (\<exists>i\<le>j. prefix path (name (files s ! i)) \<and>
               (\<forall>k<i. \<not> prefix path (name (files s ! k))) \<and>
               block_open P path s = Some (int (nbHandles s), open_existing s i))) \<and>
         ((\<forall>j<nbFiles s. \<not> prefix path (name (files s ! j))) \<and> nbFiles s < length (files s) \<longrightarrow>
            block_open P path s = Some (int (nbHandles s), open_new s path))"
proof -
  note pm = name_matches_prefix [OF nul]
  from find_file_total [OF nf] obtain r where r: "find_file path s 0 = Some r" by blast
  show ?thesis
  proof (cases r)
    case None
    from find_file_miss [OF r [unfolded None]]
    have no: "\<forall>k<nbFiles s. \<not> prefix path (name (files s ! k))" by (simp add: pm)
    moreover have "block_open P path s = Some (int (nbHandles s), open_new s path)"
      if "nbFiles s < length (files s)"
      using on nh r None that
      by (simp add: block_open_def open_new_def createNewFile_def openFile_def)
    ultimately show ?thesis by blast
  next
    case (Some i)
    from find_file_hit [OF r [unfolded Some]]
    have i: "i < nbFiles s" "prefix path (name (files s ! i))"
      "\<forall>k<i. \<not> prefix path (name (files s ! k))"
      by (simp_all add: pm)
    have op: "block_open P path s = Some (int (nbHandles s), open_existing s i)"
      using on nh r Some by (simp add: block_open_def open_existing_def openFile_def)
    have "i \<le> j" if "j < nbFiles s" "prefix path (name (files s ! j))" for j
      using i(3) that by (meson not_le_imp_less)
    with i op show ?thesis by blast
  qed
qed

theorem block_open_prefix_witness:
  "isOn demo_named \<and> nbFiles demo_named \<le> length (files demo_named) \<and>
   nbHandles demo_named < length (handles demo_named) \<and>
   block_open demo_platform ''a'' demo_named = Some (1, open_existing demo_named 0) \<and>
   files (open_existing demo_named 0) = files demo_named \<and>
   block_open demo_platform ''b'' demo_named = Some (1, open_new demo_named ''b'') \<and>
   files (open_new demo_named ''b'') ! 1 = \<lparr>name = ''b'', size_f = 0, frames = []\<rparr>"
proof -
  have h: "isOn demo_named" "nbFiles demo_named \<le> length (files demo_named)"
    "nbHandles demo_named < length (handles demo_named)"
    by (simp_all add: demo_named_def demo_state_def)
  have v: "nbFiles demo_named = 1" "nbHandles demo_named = 1" "length (files demo_named) = 2"
    "name (files demo_named ! 0) = ''ab''"
    by (simp_all add: demo_named_def demo_state_def)
  have na: "CHR 0x00 \<notin> set ''a''" and nb: "CHR 0x00 \<notin> set ''b''" by simp_all
  from block_open_prefix [OF h na, of demo_platform] v
  have a: "block_open demo_platform ''a'' demo_named = Some (1, open_existing demo_named 0)"
    by (simp add: prefix_def)
  from block_open_prefix [OF h nb, of demo_platform] v
  have b: "block_open demo_platform ''b'' demo_named = Some (1, open_new demo_named ''b'')"
    by (simp add: prefix_def)
  have c: "files (open_existing demo_named 0) = files demo_named"
    "files (open_new demo_named ''b'') ! 1 = \<lparr>name = ''b'', size_f = 0, frames = []\<rparr>"
    by (simp_all add: open_existing_def open_new_def demo_named_def demo_state_def)
  from h a b c show ?thesis by blast
qed

subsection \<open>After power-off\<close>

lemma block_poweroff_isOn:
  assumes "block_poweroff P s = Some (0, s')"
  shows "isOn s'"
  using assms by (auto simp: block_poweroff_def split: if_splits option.splits)

lemmas demo_power_eval = boot_def demo_platform_def demo_device_def frame_of_def
  zero_file_def zero_handle_def block_poweron_def block_poweroff_def init_block_cache_def
  close_block_cache_def getNbFiles_def getFreeFrame_def closeAllFiles_def closeFile_def
  block_open_def find_file.simps createNewFile_def openFile_def name_matches_def
  block_seek_def valid_fd_def empty_entry_def Let_def upt_rec

lemma flag_off_fails:
  assumes "\<not> isOn s"
  shows "block_open P path s = Some (- 1, s)" and "block_close fd s = Some (- 1, s)"
    and "block_read P fd count s = Some (- 1, [], s)"
  using assms by (simp_all add: block_open_def block_close_def block_read_def)

lemma boot_write_seek_fail:
  assumes "0 \<le> fd" and "nat fd < m"
  shows "block_write P fd buf count (boot m k dev) = Some (- 1, boot m k dev)"
    and "block_seek fd pos (boot m k dev) = Some (- 1, boot m k dev)"
  using assms
  by (simp_all add: block_write_def block_seek_def valid_fd_def boot_def zero_handle_def)

text \<open>
  C8. Every operation is meant to fail, and to change nothing, once the system is
  powered off. With \<open>isOn\<close> clear, \<open>block_open\<close>, \<open>block_close\<close> and \<open>block_read\<close> do
  (\<open>flag_off_fails\<close>), and in a starting process \<open>block_write\<close> and \<open>block_seek\<close> fail
  because every handle is closed (\<open>boot_write_seek_fail\<close>). But \<open>block_poweroff\<close> never
  clears \<open>isOn\<close>, and \<open>block_write\<close> and \<open>block_seek\<close> do not test it. So after a
  power-on and a successful power-off the flag is still set, \<open>block_open\<close> returns
  handle 0 and registers it in the handle table instead of returning \<open>-1\<close>, and
  \<open>block_seek\<close> on that handle returns 0.
\<close>

theorem poweroff_then_open:
  "\<exists>s1 s2 s3 s4.
     block_poweron demo_platform (boot 2 2 demo_device) = Some (0, s1) \<and>
     block_poweroff demo_platform s1 = Some (0, s2) \<and> isOn s2 \<and>
     block_open demo_platform ''a'' s2 = Some (0, s3) \<and>
     nbHandles s2 = 0 \<and> nbHandles s3 = 1 \<and> status (handles s3 ! 0) = OPEN \<and>
     block_seek 0 0 s3 = Some (0, s4)"
  by (simp add: demo_power_eval)

subsection \<open>Metadata across power-off and power-on\<close>

lemma write_metadata_below:
  "k < int i \<Longrightarrow> write_metadata P fs i dev k = dev k"
  by (induction fs arbitrary: i dev) auto

lemma write_metadata_at:
  "k < length fs \<Longrightarrow> write_metadata P fs i dev (int (i + k)) = file_image P (fs ! k)"
proof (induction fs arbitrary: i dev k)
  case Nil
  then show ?case by simp
next
  case (Cons f fs)
  show ?case
  proof (cases k)
    case 0
    then show ?thesis by (simp add: write_metadata_below)
  next
    case (Suc k')
    with Cons.prems have "k' < length fs" by simp
    from Cons.IH [OF this, of "Suc i"] Suc show ?thesis by simp
  qed
qed

lemma block_poweroff_device:
  assumes "block_poweroff P s = Some (0, s1)" and "k < length (files s)"
  shows "device s1 (int k) = file_image P (files s ! k)" and "files s1 = files s"
  using assms write_metadata_at [of k "files s" P 0 "device s"]
  by (auto simp: block_poweroff_def split: if_splits option.splits)

lemma block_poweron_files:
  assumes "\<not> isOn t"
  shows "\<exists>r t'. block_poweron P t = Some (r, t') \<and>
           files t' = map (\<lambda>i. image_file P (device t (int i))) [0..<length (files t)]"
  using assms by (auto simp: block_poweron_def Let_def split: prod.splits)

lemma poweron_after_poweroff:
  assumes "block_poweroff P s = Some (0, s1)"
  shows "block_poweron P s1 = Some (- 1, s1)" and "nbFiles s1 = 0" and "files s1 = files s"
  using assms by (auto simp: block_poweroff_def block_poweron_def split: if_splits option.splits)

text \<open>
  C6. The file table is meant to come back from \<open>block_poweroff\<close> followed by
  \<open>block_poweron\<close> as it was before. \<open>block_poweroff\<close> does write every entry to its
  metadata frame (\<open>block_poweroff_device\<close>), and a \<open>block_poweron\<close> that finds \<open>isOn\<close>
  clear reads every entry back from there (\<open>block_poweron_files\<close>). But
  \<open>block_poweroff\<close> sets \<open>nbFiles\<close> to 0 and never clears \<open>isOn\<close>, so the
  \<open>block_poweron\<close> that follows it returns \<open>-1\<close> at its first test and reloads nothing
  (\<open>poweron_after_poweroff\<close>): the table then counts no file at all. On the small
  system, whatever the object representation \<open>img\<close> of a table entry: after power-on,
  \<open>open("a")\<close> and a write of three bytes the entry of the file has size 3 and frame 2,
  and power-off stores its image in frame 0; after power-off and power-on
  \<open>block_open("a")\<close> finds no such file and puts a new, empty one in its slot.
\<close>

theorem poweroff_poweron_forgets_file:
  "\<exists>s1 s2 s3 s4 s5.
     block_poweron (demo_platform\<lparr>file_image := img\<rparr>) (boot 2 2 demo_device) = Some (0, s1) \<and>
     block_open (demo_platform\<lparr>file_image := img\<rparr>) ''a'' s1 = Some (0, s2) \<and>
     block_write (demo_platform\<lparr>file_image := img\<rparr>) 0 [1, 2, 3] 3 s2 = Some (3, s3) \<and>
     nbFiles s3 = 1 \<and> files s3 ! 0 = \<lparr>name = ''a'', size_f = 3, frames = [2]\<rparr> \<and>
     block_poweroff (demo_platform\<lparr>file_image := img\<rparr>) s3 = Some (0, s4) \<and>
     device s4 0 = img \<lparr>name = ''a'', size_f = 3, frames = [2]\<rparr> \<and>
     block_poweron (demo_platform\<lparr>file_image := img\<rparr>) s4 = Some (- 1, s4) \<and> nbFiles s4 = 0 \<and>
     block_open (demo_platform\<lparr>file_image := img\<rparr>) ''a'' s4 = Some (0, s5) \<and>
     files s5 ! 0 = \<lparr>name = ''a'', size_f = 0, frames = []\<rparr>"
  by (simp add: demo_power_eval demo_write_eval)

subsection \<open>Misses, insertions and the eviction scan\<close>

lemma find_frm_none:
  "block_cache_max_items c \<le> length (cache c) \<Longrightarrow>
   (\<forall>k. i \<le> k \<and> k < block_cache_max_items c \<longrightarrow> frm (cache c ! k) \<noteq> F) \<Longrightarrow>
   find_frm F c i = Some None"
proof (induction F c i rule: find_frm.induct)
  case (1 F c i)
  show ?case
  proof (cases "i < block_cache_max_items c")
    case False
    then show ?thesis by (subst find_frm.simps) simp
  next
    case True
    with "1.prems" have len: "i < length (cache c)" and ne: "frm (cache c ! i) \<noteq> F" by auto
    from "1.prems"(2) have "\<forall>k. Suc i \<le> k \<and> k < block_cache_max_items c \<longrightarrow> frm (cache c ! k) \<noteq> F"
      by auto
    from "1.IH" [OF True len ne "1.prems"(1) this] True len ne show ?thesis
      by (subst find_frm.simps) simp
  qed
qed

lemma find_frm_some:
  assumes "block_cache_max_items c \<le> length (cache c)"
    and "j < block_cache_max_items c" and "frm (cache c ! j) = F"
  shows "\<exists>i. find_frm F c 0 = Some (Some i)"
proof -
  from find_frm_total [OF assms(1)] obtain r where r: "find_frm F c 0 = Some r" by blast
  show ?thesis
  proof (cases r)
    case None
    with find_frm_miss [of F c 0] r assms(2,3) show ?thesis by auto
  next
    case (Some i)
    with r show ?thesis by blast
  qed
qed

lemma find_lru_min:
  "find_lru c i rt ix = Some r \<Longrightarrow> block_cache_max_items c \<le> 65536 \<Longrightarrow>
   unat ix < block_cache_max_items c \<Longrightarrow> rt = access (cache c ! unat ix) \<Longrightarrow>
   (\<forall>k<i. rt \<le> access (cache c ! k)) \<Longrightarrow> (\<forall>k<unat ix. rt < access (cache c ! k)) \<Longrightarrow>
   unat r < block_cache_max_items c \<and>
   (\<forall>k<block_cache_max_items c. access (cache c ! unat r) \<le> access (cache c ! k)) \<and>
   (\<forall>k<unat r. access (cache c ! unat r) < access (cache c ! k))"
proof (induction c i rt ix rule: find_lru.induct)
  case (1 c i rt ix)
  show ?case
  proof (cases "i < block_cache_max_items c")
    case False
    with "1.prems"(1) have "r = ix" by (subst (asm) find_lru.simps) simp
    with False "1.prems" show ?thesis by auto
  next
    case True
    with "1.prems"(1) have len: "i < length (cache c)"
      by (subst (asm) find_lru.simps) (auto split: if_splits)
    from True "1.prems"(2) have i16: "unat (of_nat i :: 16 word) = i"
      by (simp add: unat_of_nat)
    show ?thesis
    proof (cases "access (cache c ! i) < rt")
      case lt: True
      with "1.prems"(1) True len
      have rec: "find_lru c (Suc i) (access (cache c ! i)) (of_nat i) = Some r"
        by (subst (asm) find_lru.simps) simp
      have a: "\<forall>k<Suc i. access (cache c ! i) \<le> access (cache c ! k)"
        using lt "1.prems"(5) by (auto simp: less_Suc_eq intro: less_imp_le order.strict_trans2)
      have b: "\<forall>k<unat (of_nat i :: 16 word). access (cache c ! i) < access (cache c ! k)"
        using lt "1.prems"(5) by (auto simp: i16 intro: order.strict_trans2)
      from "1.IH"(1) [OF True len lt rec "1.prems"(2) _ _ a b] True show ?thesis
        by (simp add: i16)
    next
      case ge: False
      with "1.prems"(1) True len
      have rec: "find_lru c (Suc i) rt ix = Some r"
        by (subst (asm) find_lru.simps) simp
      have a: "\<forall>k<Suc i. rt \<le> access (cache c ! k)"
        using ge "1.prems"(5) by (auto simp: less_Suc_eq)
      from "1.IH"(2) [OF True len ge rec "1.prems"(2,3,4) a "1.prems"(6)] show ?thesis .
    qed
  qed
qed

lemma put_miss_fill:
  assumes "cacheOn c" "find_frm F c 0 = Some None"
    "unat (putTracker c) < block_cache_max_items c"
    "block_cache_max_items c \<le> length (cache c)"
  shows "put_block_cache b F x c =
           Some (0, c\<lparr>lastAccess := lastAccess c + 1,
                       cache := (cache c)[unat (putTracker c) :=
                          \<lparr>block = b, frm = F, access = lastAccess c + 1, cacheFrame = x\<rparr>],
                       putTracker := putTracker c + 1\<rparr>)"
  using assms by (simp add: put_block_cache_def)

lemma put_miss_evict:
  assumes on: "cacheOn c" and miss: "find_frm F c 0 = Some None"
    and full: "\<not> unat (putTracker c) < block_cache_max_items c"
    and m: "block_cache_max_items c \<le> length (cache c)" and pos: "0 < block_cache_max_items c"
  shows "\<exists>j<block_cache_max_items c.
           (\<forall>i<block_cache_max_items c. access (cache c ! j) \<le> access (cache c ! i)) \<and>
           (\<forall>i<j. access (cache c ! j) < access (cache c ! i)) \<and>
           put_block_cache b F x c =
             Some (0, c\<lparr>lastAccess := lastAccess c + 1,
                         cache := (cache c)[j :=
                            \<lparr>block = b, frm = F, access = lastAccess c + 1, cacheFrame = x\<rparr>]\<rparr>)"
proof -
  have "unat (putTracker c) < 65536"
    using unsigned_less [of "putTracker c", where ?'a = nat] by simp
  with full have small: "block_cache_max_items c \<le> 65536" by simp
  from find_lru_total [OF m] obtain r where
    r: "find_lru c 0 (access (cache c ! 0)) 0 = Some r" by blast
  from find_lru_min [OF r small] pos
  have j: "unat r < block_cache_max_items c"
    "\<forall>k<block_cache_max_items c. access (cache c ! unat r) \<le> access (cache c ! k)"
    "\<forall>k<unat r. access (cache c ! unat r) < access (cache c ! k)"
    by simp_all
  from j(1) m have "unat r < length (cache c)" by simp
  moreover from m pos have "cache c \<noteq> []" by auto
  ultimately
  have "put_block_cache b F x c =
          Some (0, c\<lparr>lastAccess := lastAccess c + 1,
                      cache := (cache c)[unat r :=
                         \<lparr>block = b, frm = F, access = lastAccess c + 1, cacheFrame = x\<rparr>]\<rparr>)"
    using on miss full m pos r by (simp add: put_block_cache_def)
  with j show ?thesis by blast
qed

subsection \<open>Touching frames\<close>

lemma run_touches_append:
  "run_touches (ts @ us) c =
     (case run_touches ts c of None \<Rightarrow> None | Some c1 \<Rightarrow> run_touches us c1)"
  by (induction ts arbitrary: c) (auto split: option.splits)

text \<open>A touch of a frame that no slot holds is a miss followed by an insertion.\<close>

lemma cache_touch_miss:
  assumes "block_cache_max_items c \<le> length (cache c)"
    and "\<forall>k<block_cache_max_items c. frm (cache c ! k) \<noteq> touched t"
  shows "cache_touch t c = map_option snd (put_block_cache 0 (touched t) (payload t) c)"
proof -
  from assms have "find_frm (touched t) c 0 = Some None" by (intro find_frm_none) auto
  then show ?thesis by (cases t) (simp_all add: get_block_cache_def)
qed

text \<open>Any touch keeps every slot's frame number or sets it to the touched frame, and leaves the touched frame cached.\<close>

lemma put_frms:
  assumes "cache_live C c"
  shows "\<exists>r c'. put_block_cache b F x c = Some (r, c') \<and> cache_live C c' \<and>
           (\<forall>i<C. frm (cache c' ! i) = frm (cache c ! i) \<or> frm (cache c' ! i) = F) \<and>
           (\<exists>i<C. frm (cache c' ! i) = F)"
proof -
  from assms have on: "cacheOn c" and pos: "0 < block_cache_max_items c"
    and m: "block_cache_max_items c \<le> length (cache c)"
    and C: "block_cache_max_items c = C" "length (cache c) = C"
    by (simp_all add: cache_live_def)
  from find_frm_total [OF m] obtain r where r: "find_frm F c 0 = Some r" by blast
  show ?thesis
  proof (cases r)
    case (Some i)
    from find_frm_hit [OF r [unfolded Some]] have i: "i < C" "frm (cache c ! i) = F"
      by (simp_all add: C)
    have "put_block_cache b F x c = Some (0, c\<lparr>lastAccess := lastAccess c + 1,
             cache := (cache c)[i := (cache c ! i)\<lparr>cacheFrame := x, access := lastAccess c + 1\<rparr>]\<rparr>)"
      using on r Some by (simp add: put_block_cache_def)
    moreover have "\<forall>k<C. frm ((cache c)[i := (cache c ! i)\<lparr>cacheFrame := x, access := lastAccess c + 1\<rparr>] ! k)
                     = frm (cache c ! k)"
      using C i by (simp add: nth_list_update)
    ultimately show ?thesis using assms i C
      by (auto simp: cache_live_def intro!: exI [of _ i])
  next
    case None
    show ?thesis
    proof (cases "unat (putTracker c) < block_cache_max_items c")
      case True
      from put_miss_fill [OF on r [unfolded None] True m, of b x] True assms C show ?thesis
        by (auto simp: cache_live_def nth_list_update intro!: exI [of _ "unat (putTracker c)"])
    next
      case False
      from put_miss_evict [OF on r [unfolded None] False m pos, of b x] obtain j where
        "j < block_cache_max_items c"
        "put_block_cache b F x c = Some (0, c\<lparr>lastAccess := lastAccess c + 1,
            cache := (cache c)[j := \<lparr>block = b, frm = F, access = lastAccess c + 1, cacheFrame = x\<rparr>]\<rparr>)"
        by blast
      with assms C show ?thesis
        by (auto simp: cache_live_def nth_list_update intro!: exI [of _ j])
    qed
  qed
qed

lemma get_frms:
  assumes "cache_live C c"
  shows "\<exists>p c'. get_block_cache b F c = Some (p, c') \<and> cache_live C c' \<and>
           map frm (cache c') = map frm (cache c) \<and>
           (p = None \<longrightarrow> c' = c) \<and>
           (p \<noteq> None \<longleftrightarrow> (\<exists>i<C. frm (cache c ! i) = F))"
proof -
  from assms have m: "block_cache_max_items c \<le> length (cache c)"
    and C: "block_cache_max_items c = C" "length (cache c) = C"
    by (simp_all add: cache_live_def)
  from find_frm_total [OF m] obtain r where r: "find_frm F c 0 = Some r" by blast
  show ?thesis
  proof (cases r)
    case None
    from find_frm_miss [OF r [unfolded None]] r None assms C show ?thesis
      by (auto simp: get_block_cache_def)
  next
    case (Some i)
    from find_frm_hit [OF r [unfolded Some]] have i: "i < C" "frm (cache c ! i) = F"
      by (simp_all add: C)
    have "map frm ((cache c)[i := (cache c ! i)\<lparr>access := lastAccess c + 1\<rparr>]) = map frm (cache c)"
      using i C by (intro nth_equalityI) (auto simp: nth_list_update)
    with r Some assms i show ?thesis
      by (auto simp: get_block_cache_def cache_live_def)
  qed
qed

lemma cache_touch_frms:
  assumes "cache_live C c"
  shows "\<exists>c'. cache_touch t c = Some c' \<and> cache_live C c' \<and>
           (\<forall>i<C. frm (cache c' ! i) = frm (cache c ! i) \<or> frm (cache c' ! i) = touched t) \<and>
           (\<exists>i<C. frm (cache c' ! i) = touched t)"
proof -
  from get_frms [OF assms, of 0 "touched t"] obtain p c1 where
    g: "get_block_cache 0 (touched t) c = Some (p, c1)" and l1: "cache_live C c1"
    and f1: "map frm (cache c1) = map frm (cache c)"
    and hit: "p \<noteq> None \<longleftrightarrow> (\<exists>i<C. frm (cache c ! i) = touched t)"
    by blast
  from assms l1 have len: "length (cache c) = C" "length (cache c1) = C" by (simp_all add: cache_live_def)
  have same: "frm (cache c1 ! i) = frm (cache c ! i)" if "i < C" for i
    using f1 that len by (metis nth_map)
  from put_frms [OF l1, of 0 "touched t" "payload t"] obtain r c2 where
    p: "put_block_cache 0 (touched t) (payload t) c1 = Some (r, c2)" and l2: "cache_live C c2"
    and f2: "\<forall>i<C. frm (cache c2 ! i) = frm (cache c1 ! i) \<or> frm (cache c2 ! i) = touched t"
    and in2: "\<exists>i<C. frm (cache c2 ! i) = touched t"
    by blast
  show ?thesis
  proof (cases t)
    case (Wr F d)
    with g p l2 f2 in2 same show ?thesis by auto
  next
    case (Rd F d)
    show ?thesis
    proof (cases p)
      case None
      with Rd g p l2 f2 in2 same show ?thesis by auto
    next
      case (Some x)
      with hit obtain i where "i < C" "frm (cache c ! i) = touched t" by auto
      with Rd Some g l1 same show ?thesis by auto
    qed
  qed
qed

lemma run_touches_frms:
  "cache_live C c \<Longrightarrow> \<forall>i<C. frm (cache c ! i) \<noteq> F \<Longrightarrow> F \<notin> touched ` set ts \<Longrightarrow>
     \<exists>c'. run_touches ts c = Some c' \<and> cache_live C c' \<and> (\<forall>i<C. frm (cache c' ! i) \<noteq> F)"
proof (induction ts arbitrary: c)
  case Nil
  then show ?case by simp
next
  case (Cons t ts)
  from cache_touch_frms [OF Cons.prems(1), of t] obtain c1 where
    t: "cache_touch t c = Some c1" and l1: "cache_live C c1"
    and f: "\<forall>i<C. frm (cache c1 ! i) = frm (cache c ! i) \<or> frm (cache c1 ! i) = touched t"
    by blast
  from Cons.prems(3) have ne: "touched t \<noteq> F" and rest: "F \<notin> touched ` set ts" by auto
  from f Cons.prems(2) ne have "\<forall>i<C. frm (cache c1 ! i) \<noteq> F" by metis
  from Cons.IH [OF l1 this rest] t show ?case by simp
qed

subsection \<open>Least-recently-used eviction\<close>

lemma first_filled: "0 < C \<Longrightarrow> filled C [] (first_cache C)"
  by (simp add: first_cache_def init_block_cache_def filled_def cache_live_def empty_entry_def)

lemma fill_step:
  assumes f: "filled C ts c" and k: "length ts < C" "length ts < 65536"
    and new: "touched t \<notin> touched ` set ts" and valid: "touched t \<noteq> - 1"
  shows "\<exists>c'. cache_touch t c = Some c' \<and> filled C (ts @ [t]) c' \<and>
           cache c' = (cache c)[length ts := \<lparr>block = 0, frm = touched t,
                                  access = of_nat (Suc (length ts)), cacheFrame = payload t\<rparr>]"
proof -
  from f have live: "cache_live C c" and pt: "putTracker c = of_nat (length ts)"
    and la: "lastAccess c = of_nat (length ts)"
    and lo: "\<And>i. i < length ts \<Longrightarrow> frm (cache c ! i) = touched (ts ! i)"
    and lo_a: "\<And>i. i < length ts \<Longrightarrow> access (cache c ! i) = of_nat (Suc i)"
    and hi: "\<And>i. length ts \<le> i \<Longrightarrow> i < C \<Longrightarrow> frm (cache c ! i) = - 1"
    by (simp_all add: filled_def)
  from live have on: "cacheOn c" and C: "block_cache_max_items c = C" "length (cache c) = C"
    by (simp_all add: cache_live_def)
  have none: "\<forall>i<block_cache_max_items c. frm (cache c ! i) \<noteq> touched t"
  proof (intro allI impI)
    fix i assume "i < block_cache_max_items c"
    then have i: "i < C" by (simp add: C)
    show "frm (cache c ! i) \<noteq> touched t"
    proof (cases "i < length ts")
      case True
      then have "touched (ts ! i) \<in> touched ` set ts" by simp
      with new lo [OF True] show ?thesis by auto
    next
      case False
      with hi [of i] i valid show ?thesis by simp
    qed
  qed
  have m: "block_cache_max_items c \<le> length (cache c)" by (simp add: C)
  from none m have miss: "find_frm (touched t) c 0 = Some None" by (intro find_frm_none) auto
  have u: "unat (putTracker c) = length ts" using k(2) by (simp add: pt unat_of_nat)
  with k(1) have lt: "unat (putTracker c) < block_cache_max_items c" by (simp add: C)
  define c' where "c' = c\<lparr>lastAccess := lastAccess c + 1,
      cache := (cache c)[length ts := \<lparr>block = 0, frm = touched t,
                            access = lastAccess c + 1, cacheFrame = payload t\<rparr>],
      putTracker := putTracker c + 1\<rparr>"
  from put_miss_fill [OF on miss lt m, of 0 "payload t"] cache_touch_miss [OF m none]
  have t: "cache_touch t c = Some c'" by (simp add: c'_def u)
  have s: "lastAccess c + 1 = of_nat (Suc (length ts))" by (simp add: la)
  have "filled C (ts @ [t]) c'"
    unfolding filled_def
  proof (intro conjI allI impI)
    show "cache_live C c'" using live by (simp add: cache_live_def c'_def)
    show "putTracker c' = of_nat (length (ts @ [t]))" by (simp add: c'_def pt)
    show "lastAccess c' = of_nat (length (ts @ [t]))" by (simp add: c'_def la)
  next
    fix i assume "i < length (ts @ [t])"
    then consider "i < length ts" | "i = length ts" by fastforce
    then show "frm (cache c' ! i) = touched ((ts @ [t]) ! i)"
      using lo k(1) C by cases (simp_all add: c'_def nth_append)
  next
    fix i assume "i < length (ts @ [t])"
    then consider "i < length ts" | "i = length ts" by fastforce
    then show "access (cache c' ! i) = of_nat (Suc i)"
      using lo_a k(1) C by cases (simp_all add: c'_def nth_append la)
  next
    fix i assume "length (ts @ [t]) \<le> i \<and> i < C"
    then show "frm (cache c' ! i) = - 1" using hi [of i] by (simp add: c'_def)
  qed
  with t show ?thesis by (simp add: c'_def s)
qed

lemma fill_phase:
  "0 < C \<Longrightarrow> distinct (map touched ts) \<Longrightarrow> \<forall>t\<in>set ts. touched t \<noteq> - 1 \<Longrightarrow>
   length ts \<le> C \<Longrightarrow> length ts \<le> 65536 \<Longrightarrow>
     \<exists>c. run_touches ts (first_cache C) = Some c \<and> filled C ts c"
proof (induction ts rule: rev_induct)
  case Nil
  then show ?case by (simp add: first_filled)
next
  case (snoc t ts)
  from snoc.prems have "\<exists>c. run_touches ts (first_cache C) = Some c \<and> filled C ts c"
    by (intro snoc.IH) auto
  then obtain c where r: "run_touches ts (first_cache C) = Some c" and f: "filled C ts c" by blast
  from snoc.prems have "length ts < C" "length ts < 65536" "touched t \<notin> touched ` set ts"
    "touched t \<noteq> - 1" by auto
  from fill_step [OF f this] r show ?case by (auto simp: run_touches_append)
qed


lemma run_touches_live:
  "cache_live C c \<Longrightarrow> \<exists>c'. run_touches ts c = Some c' \<and> cache_live C c'"
proof (induction ts arbitrary: c)
  case Nil
  then show ?case by simp
next
  case (Cons t ts)
  from cache_touch_frms [OF Cons.prems, of t] obtain c1 where
    "cache_touch t c = Some c1" "cache_live C c1" by blast
  with Cons.IH [of c1] show ?case by simp
qed

lemma get_miss_when_absent:
  assumes "cache_live C c" and "\<forall>i<C. frm (cache c ! i) \<noteq> F"
  shows "get_block_cache b F c = Some (None, c)"
proof -
  from get_frms [OF assms(1), of b F] assms(2) show ?thesis by auto
qed

lemma get_hit_when_present:
  assumes "cache_live C c" and "i < C" and "frm (cache c ! i) = F"
  shows "\<exists>x c'. get_block_cache b F c = Some (Some x, c')"
proof -
  from get_frms [OF assms(1), of b F] assms(2,3) show ?thesis by auto
qed

lemma first_slot_replaced:
  assumes f: "filled C ts c" and full: "length ts = min C 65536" and pos: "0 < C"
    and new: "touched t \<notin> touched ` set ts" and valid: "touched t \<noteq> - 1"
  shows "\<exists>c' e. cache_touch t c = Some c' \<and> cache_live C c' \<and>
            cache c' = (cache c)[0 := e] \<and> frm e = touched t"
proof -
  from f have live: "cache_live C c" and pt: "putTracker c = of_nat (length ts)"
    and lo: "\<And>i. i < length ts \<Longrightarrow> frm (cache c ! i) = touched (ts ! i)"
    and lo_a: "\<And>i. i < length ts \<Longrightarrow> access (cache c ! i) = of_nat (Suc i)"
    and hi: "\<And>i. length ts \<le> i \<Longrightarrow> i < C \<Longrightarrow> frm (cache c ! i) = - 1"
    by (simp_all add: filled_def)
  from live have on: "cacheOn c" and C: "block_cache_max_items c = C" "length (cache c) = C"
    by (simp_all add: cache_live_def)
  have m: "block_cache_max_items c \<le> length (cache c)" by (simp add: C)
  have pos': "0 < block_cache_max_items c" using pos by (simp add: C)
  show ?thesis
  proof (cases "C < 65536")
    case True
    with full have len: "length ts = C" by simp
    have none: "\<forall>i<block_cache_max_items c. frm (cache c ! i) \<noteq> touched t"
    proof (intro allI impI)
      fix i assume "i < block_cache_max_items c"
      then have i: "i < length ts" by (simp add: C len)
      then have "touched (ts ! i) \<in> touched ` set ts" by simp
      with new lo [OF i] show "frm (cache c ! i) \<noteq> touched t" by auto
    qed
    then have miss: "find_frm (touched t) c 0 = Some None" using m by (intro find_frm_none) auto
    have "unat (putTracker c) = C" using True by (simp add: pt len unat_of_nat)
    then have nofill: "\<not> unat (putTracker c) < block_cache_max_items c" by (simp add: C)
    from put_miss_evict [OF on miss nofill m pos', of 0 "payload t"] obtain j where
      j: "j < C" "\<forall>i<C. access (cache c ! j) \<le> access (cache c ! i)"
      and p: "put_block_cache 0 (touched t) (payload t) c =
                Some (0, c\<lparr>lastAccess := lastAccess c + 1,
                   cache := (cache c)[j := \<lparr>block = 0, frm = touched t,
                               access = lastAccess c + 1, cacheFrame = payload t\<rparr>]\<rparr>)"
      by (auto simp: C)
    from j(2) pos have "access (cache c ! j) \<le> access (cache c ! 0)" by simp
    then have "unat (access (cache c ! j)) \<le> unat (access (cache c ! 0))"
      by (simp add: word_le_nat_alt)
    moreover have "unat (access (cache c ! j)) = Suc j"
      unfolding lo_a [of j, unfolded len, OF j(1)]
      by (subst unat_of_nat) (use j(1) True in simp)
    moreover have "unat (access (cache c ! 0)) = Suc 0"
      unfolding lo_a [of 0, unfolded len, OF pos]
      by (subst unat_of_nat) simp
    ultimately have "j = 0" by simp
    with p cache_touch_miss [OF m none] live show ?thesis
      by (auto simp: cache_live_def)
  next
    case False
    with full have len: "length ts = 65536" by simp
    have none: "\<forall>i<block_cache_max_items c. frm (cache c ! i) \<noteq> touched t"
    proof (intro allI impI)
      fix i assume "i < block_cache_max_items c"
      then have i: "i < C" by (simp add: C)
      show "frm (cache c ! i) \<noteq> touched t"
      proof (cases "i < length ts")
        case True
        then have "touched (ts ! i) \<in> touched ` set ts" by simp
        with new lo [OF True] show ?thesis by auto
      next
        case nl: False
        with hi [of i] i valid show ?thesis by simp
      qed
    qed
    then have miss: "find_frm (touched t) c 0 = Some None" using m by (intro find_frm_none) auto
    have u: "unat (putTracker c) = 0" by (simp add: pt len unat_of_nat)
    with pos have lt: "unat (putTracker c) < block_cache_max_items c" by (simp add: C)
    from put_miss_fill [OF on miss lt m, of 0 "payload t"] cache_touch_miss [OF m none] live u
    show ?thesis by (auto simp: cache_live_def)
  qed
qed


lemma lru_after_fill:
  assumes pos: "0 < C" and len: "length ts = C + 1"
    and dist: "distinct (map touched ts)" and valid: "\<forall>t\<in>set ts. touched t \<noteq> - 1"
  shows "\<exists>c. run_touches ts (first_cache C) = Some c \<and>
           get_block_cache 0 (touched (hd ts)) c = Some (None, c) \<and>
           (\<exists>x c'. get_block_cache 0 (touched (last ts)) c = Some (Some x, c'))"
proof -
  define k where "k = min C 65536"
  have k: "0 < k" "k \<le> C" "k \<le> 65536" "k < length ts"
    using pos len by (simp_all add: k_def)
  define ts1 t' rest where "ts1 = take k ts" and "t' = ts ! k" and "rest = drop (Suc k) ts"
  have split: "ts = ts1 @ t' # rest"
    using k(4) by (simp add: ts1_def t'_def rest_def id_take_nth_drop)
  have l1: "length ts1 = k" using k(4) by (simp add: ts1_def)
  from dist have d: "distinct (map touched ts1)" "touched t' \<notin> touched ` set ts1"
    "distinct (map touched rest)" "touched ` set ts1 \<inter> touched ` set rest = {}"
    by (auto simp: split)
  from valid have v: "\<forall>t\<in>set ts1. touched t \<noteq> - 1" "touched t' \<noteq> - 1"
    by (auto simp: split)
  define F1 where "F1 = touched (hd ts)"
  have F1: "F1 = touched (ts1 ! 0)" using k(1) l1 by (cases ts1) (auto simp: F1_def split)
  have F1_in: "F1 \<in> touched ` set ts1" using k(1) l1 by (auto simp: F1)
  from F1_in d(4) have F1_rest: "F1 \<notin> touched ` set rest" by blast
  from F1_in d(2) have F1_t': "F1 \<noteq> touched t'" by blast
  from valid have F1_valid: "F1 \<noteq> - 1" using k(4) by (cases ts) (auto simp: F1_def)
  from fill_phase [OF pos d(1) v(1)] k l1 obtain c1 where
    r1: "run_touches ts1 (first_cache C) = Some c1" and f1: "filled C ts1 c1" by auto
  from first_slot_replaced [OF f1 _ pos d(2) v(2)] l1 obtain c2 e where
    r2: "cache_touch t' c1 = Some c2" and live2: "cache_live C c2"
    and c2: "cache c2 = (cache c1)[0 := e]" and e: "frm e = touched t'"
    by (auto simp: k_def)
  from f1 have live1: "cache_live C c1"
    and lo: "\<And>i. i < k \<Longrightarrow> frm (cache c1 ! i) = touched (ts1 ! i)"
    and hi: "\<And>i. k \<le> i \<Longrightarrow> i < C \<Longrightarrow> frm (cache c1 ! i) = - 1"
    by (simp_all add: filled_def l1)
  from live1 have C: "length (cache c1) = C" by (simp add: cache_live_def)
  have none2: "\<forall>i<C. frm (cache c2 ! i) \<noteq> F1"
  proof (intro allI impI)
    fix i assume i: "i < C"
    consider "i = 0" | "0 < i" "i < k" | "k \<le> i" by linarith
    then show "frm (cache c2 ! i) \<noteq> F1"
    proof cases
      case 1
      with i C e F1_t' show ?thesis by (simp add: c2)
    next
      case 2
      from d(1) 2 l1 have "touched (ts1 ! i) \<noteq> touched (ts1 ! 0)"
        by (auto simp: distinct_conv_nth)
      with lo [OF 2(2)] 2(1) show ?thesis by (simp add: c2 F1)
    next
      case 3
      with k(1) have "i \<noteq> 0" by simp
      with hi [OF 3 i] F1_valid show ?thesis by (simp add: c2)
    qed
  qed
  from run_touches_frms [OF live2 none2 F1_rest] obtain c3 where
    r3: "run_touches rest c2 = Some c3" and live3: "cache_live C c3"
    and none3: "\<forall>i<C. frm (cache c3 ! i) \<noteq> F1" by blast
  have run: "run_touches ts (first_cache C) = Some c3"
    by (subst split) (simp add: run_touches_append r1 r2 r3)
  have miss: "get_block_cache 0 F1 c3 = Some (None, c3)"
    using live3 none3 by (rule get_miss_when_absent)
  have ne: "ts \<noteq> []" using len by auto
  from first_filled [OF pos] have live0: "cache_live C (first_cache C)" by (simp add: filled_def)
  from run_touches_live [OF live0, of "butlast ts"] obtain cb where
    rb: "run_touches (butlast ts) (first_cache C) = Some cb" and liveb: "cache_live C cb" by blast
  from cache_touch_frms [OF liveb, of "last ts"] obtain cf i where
    rf: "cache_touch (last ts) cb = Some cf" and livef: "cache_live C cf"
    and i: "i < C" "frm (cache cf ! i) = touched (last ts)" by blast
  have "run_touches (butlast ts @ [last ts]) (first_cache C) = Some cf"
    by (simp add: run_touches_append rb rf)
  with ne run have "cf = c3" by simp
  with get_hit_when_present [OF livef i, of 0]
  have hit: "\<exists>x c'. get_block_cache 0 (touched (last ts)) c3 = Some (Some x, c')" by simp
  from run miss hit show ?thesis by (auto simp: F1_def)
qed


text \<open>
  A frame that sits in the second slot of a two-entry cache, and carries the current
  value of \<open>lastAccess\<close>, is read \<open>n\<close> more times: every read is a hit that adds one
  to \<open>lastAccess\<close> and stores it in the slot.
\<close>

lemma hits_repeat:
  assumes "frm e \<noteq> F"
  shows "run_touches (replicate n (Rd F z))
     \<lparr>block_cache_max_items = 2,
      cache = [e, \<lparr>block = b, frm = F, access = l, cacheFrame = y\<rparr>],
      putTracker = p, lastAccess = l, cacheOn = True\<rparr>
   = Some \<lparr>block_cache_max_items = 2,
      cache = [e, \<lparr>block = b, frm = F, access = l + of_nat n, cacheFrame = y\<rparr>],
      putTracker = p, lastAccess = l + of_nat n, cacheOn = True\<rparr>"
  using assms
proof (induction n arbitrary: l)
  case 0
  then show ?case by simp
next
  case (Suc n)
  from Suc.prems Suc.IH [OF Suc.prems, of "l + 1"] show ?case
    by (simp add: get_block_cache_def find_frm.simps [of F _ 0] find_frm.simps [of F _ "Suc 0"]
        add.assoc)
qed

text \<open>
  C5. The cache is meant to evict the least recently used frame: on a freshly
  initialised cache of capacity \<open>C\<close>, \<open>C + 1\<close> distinct frames touched once each leave
  the first one out and the last one in. In the first initialisation of a process,
  where both counters are 0, this holds for every \<open>C > 0\<close> (\<open>lru_after_fill\<close>), and
  whenever \<open>putTracker\<close> has reached the capacity the slot that \<open>put_block_cache\<close>
  overwrites is the first one with the lowest access count (\<open>put_miss_evict\<close>). But
  \<open>putTracker\<close> and \<open>lastAccess\<close> are 16-bit counters that wrap, and neither
  \<open>close_block_cache\<close> nor \<open>init_block_cache\<close> resets them, so a cache that is closed
  and initialised again starts empty with the counters of the cycle before. Here, with
  capacity 2: frames 1 and 2 are read, frame 2 is read 65532 more times, and the cache is
  closed with \<open>putTracker = 2\<close> and \<open>lastAccess = 65534\<close>. After \<open>init_block_cache\<close>
  the frames 5, 6 and 7 are read once each. Frame 5 gets the access count 65535, the
  counter wraps and frame 6 gets 0, so frame 7 replaces frame 6, the more recent of the
  two: \<open>get\<close> of frame 5, the first frame touched, hits, and \<open>get\<close> of frame 6 misses.
\<close>

theorem lru_after_reinit:
  "\<exists>c1 c2 c3 c4 x c5.
     run_touches ([Rd 1 (frame_of []), Rd 2 (frame_of [])] @ replicate 65532 (Rd 2 (frame_of [])))
        (first_cache 2) = Some c1 \<and>
     putTracker c1 = 2 \<and> lastAccess c1 = 65534 \<and>
     close_block_cache c1 = Some (0, c2) \<and>
     init_block_cache c2 = (0, c3) \<and>
     run_touches [Rd 5 (frame_of []), Rd 6 (frame_of []), Rd 7 (frame_of [])] c3 = Some c4 \<and>
     map frm (cache c4) = [5, 7] \<and>
     get_block_cache 0 5 c4 = Some (Some x, c5) \<and>
     get_block_cache 0 6 c4 = Some (None, c4)"
proof -
  let ?z = "frame_of []"
  let ?e = "\<lparr>block = 0, frm = 1, access = 1, cacheFrame = ?z\<rparr>"
  define c0 where "c0 = \<lparr>block_cache_max_items = 2,
        cache = [?e, \<lparr>block = 0, frm = 2, access = 2, cacheFrame = ?z\<rparr>],
        putTracker = 2, lastAccess = 2, cacheOn = True\<rparr>"
  define c1 where "c1 = \<lparr>block_cache_max_items = 2,
        cache = [?e, \<lparr>block = 0, frm = 2, access = 65534, cacheFrame = ?z\<rparr>],
        putTracker = 2, lastAccess = 65534, cacheOn = True\<rparr>"
  define c3 where "c3 = \<lparr>block_cache_max_items = 2, cache = [empty_entry, empty_entry],
        putTracker = 2, lastAccess = 65534, cacheOn = True\<rparr>"
  define c4 where "c4 = \<lparr>block_cache_max_items = 2,
        cache = [\<lparr>block = 0, frm = 5, access = 65535, cacheFrame = ?z\<rparr>,
                 \<lparr>block = 0, frm = 7, access = 1, cacheFrame = ?z\<rparr>],
        putTracker = 2, lastAccess = 1, cacheOn = True\<rparr>"
  have a: "run_touches [Rd 1 ?z, Rd 2 ?z] (first_cache 2) = Some c0"
    by (simp add: c0_def first_cache_def init_block_cache_def empty_entry_def
        get_block_cache_def put_block_cache_def find_frm.simps find_lru.simps numeral_2_eq_2)
  have n: "(2 :: 16 word) + of_nat 65532 = 65534" by simp
  have f: "frm ?e \<noteq> 2" by simp
  have b: "run_touches (replicate 65532 (Rd 2 ?z)) c0 = Some c1"
    unfolding c0_def c1_def using hits_repeat [OF f, of 65532 ?z 0 2 ?z 2]
    by (simp only: n)
  have r1: "run_touches ([Rd 1 ?z, Rd 2 ?z] @ replicate 65532 (Rd 2 ?z)) (first_cache 2) = Some c1"
    by (simp only: run_touches_append a option.case b)
  have k: "putTracker c1 = 2" "lastAccess c1 = 65534" by (simp_all add: c1_def)
  have cl: "close_block_cache c1 = Some (0, c1\<lparr>cache := [], cacheOn := False\<rparr>)"
    by (simp add: close_block_cache_def c1_def)
  have ini: "init_block_cache (c1\<lparr>cache := [], cacheOn := False\<rparr>) = (0, c3)"
    by (simp add: init_block_cache_def c1_def c3_def numeral_2_eq_2)
  have d: "run_touches [Rd 5 ?z, Rd 6 ?z, Rd 7 ?z] c3 = Some c4"
    by (simp add: c3_def c4_def empty_entry_def get_block_cache_def put_block_cache_def
        find_frm.simps find_lru.simps)
  have m: "map frm (cache c4) = [5, 7]" by (simp add: c4_def)
  have g5: "\<exists>x c5. get_block_cache 0 5 c4 = Some (Some x, c5)"
    by (simp add: c4_def get_block_cache_def find_frm.simps)
  have g6: "get_block_cache 0 6 c4 = Some (None, c4)"
    by (simp add: c4_def get_block_cache_def find_frm.simps)
  from g5 obtain x c5 where g: "get_block_cache 0 5 c4 = Some (Some x, c5)" by blast
  show ?thesis
    by (intro exI conjI)
      (rule r1, rule k(1), rule k(2), rule cl, rule ini, rule d, rule m, rule g, rule g6)
qed

subsection \<open>Write-through coherence\<close>

lemma slots_ok_coherent:
  assumes "slots_ok (bcache s) (device s)"
  shows "coherent s"
  unfolding coherent_def
proof (intro allI impI)
  fix F x assume a: "F \<noteq> - 1 \<and> cached (bcache s) F = Some x"
  then obtain i where i: "find_frm F (bcache s) 0 = Some (Some i)"
    and x: "x = cacheFrame (cache (bcache s) ! i)"
    by (auto simp: cached_def split: option.splits)
  from find_frm_hit [OF i] have "i < length (cache (bcache s))" "frm (cache (bcache s) ! i) = F"
    by simp_all
  with assms a x show "x = device s F" by (auto simp: slots_ok_def)
qed

lemma slots_ok_insert:
  assumes ok: "slots_ok c dev" and j: "j < length (cache c)"
    and miss: "\<forall>k<length (cache c). frm (cache c ! k) \<noteq> F"
    and c': "cache c' = (cache c)[j := \<lparr>block = b, frm = F, access = a, cacheFrame = x\<rparr>]"
      "cacheOn c' = cacheOn c" "block_cache_max_items c' = block_cache_max_items c"
  shows "slots_ok c' (dev(F := x))"
  unfolding slots_ok_def
proof (intro conjI allI impI)
  show "if cacheOn c' then length (cache c') = block_cache_max_items c' else cache c' = []"
    using ok j by (auto simp: slots_ok_def c')
next
  fix i k assume i: "i < length (cache c')" and k: "k < length (cache c')"
    and e: "frm (cache c' ! i) = frm (cache c' ! k) \<and> frm (cache c' ! i) \<noteq> - 1"
  from ok have u: "\<And>i k. i < length (cache c) \<Longrightarrow> k < length (cache c) \<Longrightarrow>
      frm (cache c ! i) = frm (cache c ! k) \<Longrightarrow> frm (cache c ! i) \<noteq> - 1 \<Longrightarrow> i = k"
    by (auto simp: slots_ok_def)
  show "i = k"
  proof (cases "i = j \<or> k = j")
    case True
    with i k e miss show ?thesis by (auto simp: c' nth_list_update split: if_splits)
  next
    case False
    with i k e u [of i k] show ?thesis by (auto simp: c')
  qed
next
  fix i assume i: "i < length (cache c')" and v: "frm (cache c' ! i) \<noteq> - 1"
  show "cacheFrame (cache c' ! i) = (dev(F := x)) (frm (cache c' ! i))"
  proof (cases "i = j")
    case True
    with i show ?thesis by (simp add: c')
  next
    case False
    with i miss have "frm (cache c ! i) \<noteq> F" by (simp add: c')
    with False i v ok show ?thesis by (auto simp: c' slots_ok_def)
  qed
qed

lemma slots_ok_update:
  assumes ok: "slots_ok c dev" and i: "i < length (cache c)" and hit: "frm (cache c ! i) = F"
    and c': "cache c' = (cache c)[i := (cache c ! i)\<lparr>cacheFrame := x, access := a\<rparr>]"
      "cacheOn c' = cacheOn c" "block_cache_max_items c' = block_cache_max_items c"
  shows "slots_ok c' (dev(F := x))"
  unfolding slots_ok_def
proof (intro conjI allI impI)
  show "if cacheOn c' then length (cache c') = block_cache_max_items c' else cache c' = []"
    using ok i by (auto simp: slots_ok_def c')
next
  fix k l assume k: "k < length (cache c')" and l: "l < length (cache c')"
    and e: "frm (cache c' ! k) = frm (cache c' ! l) \<and> frm (cache c' ! k) \<noteq> - 1"
  have f: "frm (cache c' ! m) = frm (cache c ! m)" if "m < length (cache c)" for m
    using that by (cases "m = i") (simp_all add: c')
  from ok have u: "\<And>i k. i < length (cache c) \<Longrightarrow> k < length (cache c) \<Longrightarrow>
      frm (cache c ! i) = frm (cache c ! k) \<Longrightarrow> frm (cache c ! i) \<noteq> - 1 \<Longrightarrow> i = k"
    by (auto simp: slots_ok_def)
  from k l e f [of k] f [of l] u [of k l] show "k = l" by (simp add: c')
next
  fix k assume k: "k < length (cache c')" and v: "frm (cache c' ! k) \<noteq> - 1"
  from ok have u: "\<And>i k. i < length (cache c) \<Longrightarrow> k < length (cache c) \<Longrightarrow>
      frm (cache c ! i) = frm (cache c ! k) \<Longrightarrow> frm (cache c ! i) \<noteq> - 1 \<Longrightarrow> i = k"
    by (auto simp: slots_ok_def)
  show "cacheFrame (cache c' ! k) = (dev(F := x)) (frm (cache c' ! k))"
  proof (cases "k = i")
    case True
    with i hit show ?thesis by (simp add: c')
  next
    case False
    with k have kk: "k < length (cache c)" "cache c' ! k = cache c ! k" by (simp_all add: c')
    with v u [of k i] i hit False have "frm (cache c ! k) \<noteq> F" by auto
    with kk v ok show ?thesis by (auto simp: slots_ok_def)
  qed
qed

lemma slots_ok_dev:
  assumes "slots_ok c dev" and "\<And>F. F \<noteq> - 1 \<Longrightarrow> dev' F = dev F"
  shows "slots_ok c dev'"
  using assms by (simp add: slots_ok_def)

lemma slots_ok_access:
  assumes ok: "slots_ok c dev" and i: "i < length (cache c)"
    and c': "cache c' = (cache c)[i := (cache c ! i)\<lparr>access := a\<rparr>]"
      "cacheOn c' = cacheOn c" "block_cache_max_items c' = block_cache_max_items c"
  shows "slots_ok c' dev"
proof -
  have "cache c' = (cache c)[i := (cache c ! i)\<lparr>cacheFrame := cacheFrame (cache c ! i), access := a\<rparr>]"
    by (simp add: c')
  from slots_ok_update [OF ok i refl this c'(2,3)]
  have a: "slots_ok c' (dev(frm (cache c ! i) := cacheFrame (cache c ! i)))" .
  have b: "frm (cache c ! i) \<noteq> - 1 \<Longrightarrow> dev (frm (cache c ! i)) = cacheFrame (cache c ! i)"
    using ok i by (simp add: slots_ok_def)
  show ?thesis
  proof (rule slots_ok_dev [OF a])
    fix G :: int assume "G \<noteq> - 1"
    with b show "dev G = (dev(frm (cache c ! i) := cacheFrame (cache c ! i))) G"
      by (cases "G = frm (cache c ! i)") auto
  qed
qed

lemma get_slots_ok:
  assumes ok: "slots_ok c dev" and g: "get_block_cache b F c = Some (p, c')"
  shows "slots_ok c' dev \<and> (\<forall>x. p = Some x \<and> F \<noteq> - 1 \<longrightarrow> x = dev F)"
proof -
  from g obtain r where r: "find_frm F c 0 = Some r"
    by (auto simp: get_block_cache_def split: option.splits)
  show ?thesis
  proof (cases r)
    case None
    with g r ok show ?thesis by (simp add: get_block_cache_def)
  next
    case (Some i)
    from find_frm_hit [OF r [unfolded Some]] have i: "i < length (cache c)" "frm (cache c ! i) = F"
      by simp_all
    from g r Some have p: "p = Some (cacheFrame (cache c ! i))"
      and c': "c' = c\<lparr>lastAccess := lastAccess c + 1,
                  cache := (cache c)[i := (cache c ! i)\<lparr>access := lastAccess c + 1\<rparr>]\<rparr>"
      by (simp_all add: get_block_cache_def)
    have "slots_ok c' dev"
      by (rule slots_ok_access [OF ok i(1)]) (simp_all add: c')
    moreover from ok i have "F \<noteq> - 1 \<longrightarrow> cacheFrame (cache c ! i) = dev F"
      by (auto simp: slots_ok_def)
    ultimately show ?thesis by (simp add: p)
  qed
qed

lemma put_slots_ok:
  assumes ok: "slots_ok c dev" and p: "put_block_cache b F x c = Some (r, c')"
  shows "slots_ok c' (dev(F := x))"
proof (cases "cacheOn c")
  case False
  with p have "c' = c" by (simp add: put_block_cache_def)
  moreover from ok False have "cache c = []" by (simp add: slots_ok_def)
  ultimately show ?thesis using ok by (simp add: slots_ok_def)
next
  case True
  with ok have len: "length (cache c) = block_cache_max_items c" by (simp add: slots_ok_def)
  from p True obtain q where q: "find_frm F c 0 = Some q"
    by (auto simp: put_block_cache_def split: option.splits)
  show ?thesis
  proof (cases q)
    case (Some i)
    from find_frm_hit [OF q [unfolded Some]] have i: "i < length (cache c)" "frm (cache c ! i) = F"
      by simp_all
    from p True q Some have c': "c' = c\<lparr>lastAccess := lastAccess c + 1,
        cache := (cache c)[i := (cache c ! i)\<lparr>cacheFrame := x, access := lastAccess c + 1\<rparr>]\<rparr>"
      by (simp add: put_block_cache_def)
    show ?thesis by (rule slots_ok_update [OF ok i]) (simp_all add: c')
  next
    case None
    from find_frm_miss [OF q [unfolded None]] len
    have miss: "\<forall>k<length (cache c). frm (cache c ! k) \<noteq> F" by simp
    from p True q None obtain j where j: "j < length (cache c)"
      and c': "cache c' = (cache c)[j := \<lparr>block = b, frm = F, access = lastAccess c + 1, cacheFrame = x\<rparr>]"
        "cacheOn c' = cacheOn c" "block_cache_max_items c' = block_cache_max_items c"
      by (auto simp: put_block_cache_def split: if_splits option.splits)
    from slots_ok_insert [OF ok j miss c'] show ?thesis .
  qed
qed

lemma read_step_slots_ok:
  assumes ok: "slots_ok (bcache s) (device s)"
    and st: "read_step P fi l n buf s = Some (l1, r1, buf1, s1)"
  shows "slots_ok (bcache s1) (device s1)"
proof -
  from read_step_frame [OF st] have dev: "device s1 = device s" by auto
  define F where "F = frames (files s ! fi) ! nat (l div int (BLOCK_FRAME_SIZE P))"
  from st obtain p c1 where g: "get_block_cache 0 F (bcache s) = Some (p, c1)"
    by (auto simp: read_step_def Let_def F_def split: if_splits option.splits)
  from get_slots_ok [OF ok g] have ok1: "slots_ok c1 (device s)" by simp
  show ?thesis
  proof (cases p)
    case (Some x)
    with st g have "bcache s1 = c1"
      by (auto simp: read_step_def Let_def F_def split: if_splits option.splits)
    with ok1 dev show ?thesis by simp
  next
    case None
    with st g obtain r c2 where p: "put_block_cache 0 F (device s F) c1 = Some (r, c2)"
      and b: "bcache s1 = c2"
      by (auto simp: read_step_def Let_def F_def split: if_splits option.splits)
    from put_slots_ok [OF ok1 p] b dev show ?thesis by simp
  qed
qed

lemma read_loop_slots_ok:
  "slots_ok (bcache s) (device s) \<Longrightarrow> read_loop P fi l n buf s = Some (l', buf', s') \<Longrightarrow>
     slots_ok (bcache s') (device s')"
proof (induction P fi l n buf s rule: read_loop.induct)
  case (1 P fi l remaining buf s)
  show ?case
  proof (cases "remaining = 0")
    case True
    with "1.prems" show ?thesis by (simp add: read_loop.simps)
  next
    case False
    with "1.prems"(2) obtain l1 r1 buf1 s1
      where st: "read_step P fi l remaining buf s = Some (l1, r1, buf1, s1)"
        and rec: "read_loop P fi l1 r1 buf1 s1 = Some (l', buf', s')"
      by (subst (asm) read_loop.simps) (auto split: option.splits)
    from read_step_slots_ok [OF "1.prems"(1) st] have "slots_ok (bcache s1) (device s1)" .
    from "1.IH" [OF False st refl refl refl this rec] show ?thesis .
  qed
qed

lemma write_step_slots_ok:
  assumes ok: "slots_ok (bcache s) (device s)"
    and st: "write_step P fi buf l n b s = Some (l1, r1, b1, s1)"
  shows "slots_ok (bcache s1) (device s1)"
proof -
  define F where "F = frames (files s ! fi) ! nat (l div int (BLOCK_FRAME_SIZE P))"
  from st obtain p c1 where g: "get_block_cache 0 F (bcache s) = Some (p, c1)"
    by (auto simp: write_step_def Let_def F_def split: if_splits option.splits)
  from get_slots_ok [OF ok g] have ok1: "slots_ok c1 (device s)" by simp
  from st g obtain x r c2 where p: "put_block_cache 0 F x c1 = Some (r, c2)"
    and b: "bcache s1 = c2" and d: "device s1 = (device s)(F := x)"
    by (auto simp: write_step_def Let_def F_def split: if_splits option.splits)
  from put_slots_ok [OF ok1 p] b d show ?thesis by simp
qed

lemma write_loop_slots_ok:
  "slots_ok (bcache s) (device s) \<Longrightarrow> write_loop P fi buf l n b s = Some (l', s') \<Longrightarrow>
     slots_ok (bcache s') (device s')"
proof (induction P fi buf l n b s rule: write_loop.induct)
  case (1 P fi buf l remaining b s)
  show ?case
  proof (cases "0 < remaining")
    case False
    with "1.prems" show ?thesis by (simp add: write_loop.simps)
  next
    case True
    with "1.prems"(2) obtain l1 r1 b1 s1
      where st: "write_step P fi buf l remaining b s = Some (l1, r1, b1, s1)"
        and rec: "write_loop P fi buf l1 r1 b1 s1 = Some (l', s')"
      by (subst (asm) write_loop.simps) (auto split: option.splits)
    from write_step_slots_ok [OF "1.prems"(1) st] have "slots_ok (bcache s1) (device s1)" .
    from "1.IH" [OF True st refl refl refl this rec] show ?thesis .
  qed
qed


lemma block_read_slots_ok:
  assumes ok: "slots_ok (bcache s) (device s)" and r: "block_read P fd count s = Some (r, buf, s')"
  shows "slots_ok (bcache s') (device s')"
proof (cases "\<not> isOn s \<or> status (handles s ! nat fd) = CLOSED")
  case True
  with r have "s' = s" by (auto simp: block_read_def split: if_splits)
  with ok show ?thesis by simp
next
  case False
  with r obtain fi l n l' s1 where
    rl: "read_loop P fi l n [] s = Some (l', buf, s1)"
    and s': "s' = s1\<lparr>handles := (handles s1)[nat fd := (handles s1 ! nat fd)\<lparr>loc := l'\<rparr>]\<rparr>"
    by (auto simp: block_read_def Let_def split: if_splits option.splits)
  from read_loop_slots_ok [OF ok rl] s' show ?thesis by simp
qed

lemma block_write_slots_ok:
  assumes ok: "slots_ok (bcache s) (device s)" and w: "block_write P fd buf count s = Some (r, s')"
  shows "slots_ok (bcache s') (device s')"
proof (cases "status (handles s ! nat fd) = CLOSED")
  case True
  with w have "s' = s" by (auto simp: block_write_def split: if_splits)
  with ok show ?thesis by simp
next
  case False
  with w obtain fi where fi: "file_h (handles s ! nat fd) = Some fi" "fi < length (files s)"
    and v: "valid_fd fd s"
    by (auto simp: block_write_def split: if_splits option.splits)
  obtain r0 s1 where al: "allocateNewFrames P fi (loc (handles s ! nat fd)) count s = (r0, s1)"
    by (cases "allocateNewFrames P fi (loc (handles s ! nat fd)) count s")
  from allocateNewFrames_frame [OF al fi(2)]
  have s1: "bcache s1 = bcache s" "device s1 = device s"
    by (metis driver.select_convs(7) driver.surjective driver.update_convs(4,5),
        metis driver.select_convs(8) driver.surjective driver.update_convs(4,5))
  show ?thesis
  proof (cases "r0 = - 1")
    case True
    with w False fi v al have "s' = s1" by (simp add: block_write_def)
    with ok s1 show ?thesis by simp
  next
    case ne: False
    with w False fi v al obtain l' s2 where
      wl: "write_loop P fi buf (loc (handles s ! nat fd)) count 0 s1 = Some (l', s2)"
      and s': "bcache s' = bcache s2" "device s' = device s2"
      by (auto simp: block_write_def split: if_splits option.splits)
    from ok s1 have "slots_ok (bcache s1) (device s1)" by simp
    from write_loop_slots_ok [OF this wl] s' show ?thesis by simp
  qed
qed

lemma reachable_slots_ok: "reachable P s \<Longrightarrow> slots_ok (bcache s) (device s)"
proof (induction rule: reachable.induct)
  case (booted max_total_files default_cache_size dev)
  show ?case by (simp add: boot_def slots_ok_def)
next
  case (resized s max_frames)
  then show ?case by (simp add: slots_ok_def set_block_cache_size_def)
next
  case (powered_on s r s')
  then show ?case
    by (auto simp: block_poweron_def Let_def init_block_cache_def slots_ok_def empty_entry_def
        split: if_splits)
next
  case (powered_off s r s')
  then show ?case
    by (auto simp: block_poweroff_def close_block_cache_def slots_ok_def
        split: if_splits option.splits)
next
  case (opened s path r s')
  then show ?case
    by (auto simp: block_open_def split: if_splits option.splits)
next
  case (closed s fd r s')
  then show ?case by (auto simp: block_close_def split: if_splits)
next
  case (read_done s fd count r buf s')
  then show ?case by (auto intro: block_read_slots_ok)
next
  case (written s fd buf count r s')
  then show ?case by (auto intro: block_write_slots_ok)
next
  case (sought s fd pos r s')
  then show ?case by (auto simp: block_seek_def split: if_splits option.splits)
qed


lemma find_frm_first:
  assumes m: "block_cache_max_items c \<le> length (cache c)" and j: "j < block_cache_max_items c"
    and hit: "frm (cache c ! j) = F" and first: "\<forall>k<j. frm (cache c ! k) \<noteq> F"
  shows "find_frm F c 0 = Some (Some j)"
proof -
  from find_frm_total [OF m] obtain r where r: "find_frm F c 0 = Some r" by blast
  show ?thesis
  proof (cases r)
    case None
    with find_frm_miss [of F c 0] r j hit show ?thesis by auto
  next
    case (Some i)
    from find_frm_hit [OF r [unfolded Some]]
    have i: "frm (cache c ! i) = F" "\<forall>k<i. frm (cache c ! k) \<noteq> F" by simp_all
    from i(2) hit have "\<not> j < i" by auto
    moreover from first i(1) have "\<not> i < j" by auto
    ultimately have "i = j" by simp
    with r Some show ?thesis by simp
  qed
qed

lemma put_cached:
  assumes ok: "slots_ok c dev" and on: "cacheOn c"
    and p: "put_block_cache b F x c = Some (r, c')"
  shows "cached c' F = Some x"
proof -
  from ok on have len: "length (cache c) = block_cache_max_items c" by (simp add: slots_ok_def)
  from p on obtain q where q: "find_frm F c 0 = Some q"
    by (auto simp: put_block_cache_def split: option.splits)
  show ?thesis
  proof (cases q)
    case (Some i)
    from find_frm_hit [OF q [unfolded Some]]
    have i: "i < length (cache c)" "frm (cache c ! i) = F" "\<forall>k<i. frm (cache c ! k) \<noteq> F"
      by simp_all
    from p on q Some have c': "c' = c\<lparr>lastAccess := lastAccess c + 1,
        cache := (cache c)[i := (cache c ! i)\<lparr>cacheFrame := x, access := lastAccess c + 1\<rparr>]\<rparr>"
      by (simp add: put_block_cache_def)
    have "find_frm F c' 0 = Some (Some i)"
      by (rule find_frm_first) (use i len in \<open>simp_all add: c'\<close>)
    with i(1) show ?thesis by (simp add: cached_def c')
  next
    case None
    from find_frm_miss [OF q [unfolded None]] len
    have miss: "\<forall>k<length (cache c). frm (cache c ! k) \<noteq> F" by simp
    from p on q None obtain j where j: "j < length (cache c)"
      and c': "cache c' = (cache c)[j := \<lparr>block = b, frm = F, access = lastAccess c + 1, cacheFrame = x\<rparr>]"
        "block_cache_max_items c' = block_cache_max_items c"
      by (auto simp: put_block_cache_def split: if_splits option.splits)
    have "find_frm F c' 0 = Some (Some j)"
      by (rule find_frm_first) (use j len miss in \<open>simp_all add: c'\<close>)
    with j show ?thesis by (simp add: cached_def c')
  qed
qed

lemma write_step_pushes:
  assumes ok: "slots_ok (bcache s) (device s)"
    and st: "write_step P fi buf l n b s = Some (l1, r1, b1, s1)" and n: "0 < n"
    and F: "F = frames (files s ! fi) ! nat (l div int (BLOCK_FRAME_SIZE P))"
  shows "cacheOn (bcache s) \<longrightarrow> cached (bcache s1) F = Some (device s1 F)"
    and "F \<noteq> - 1 \<longrightarrow> device s1 = (device s)(F := overlay (device s F)
            (nat (l mod int (BLOCK_FRAME_SIZE P))) buf (nat b) (nat (l1 - l)))"
proof -
  from st obtain p c1 where g: "get_block_cache 0 F (bcache s) = Some (p, c1)"
    by (auto simp: write_step_def Let_def F split: if_splits option.splits)
  from get_slots_ok [OF ok g] have ok1: "slots_ok c1 (device s)"
    and co: "\<And>x. p = Some x \<Longrightarrow> F \<noteq> - 1 \<Longrightarrow> x = device s F" by auto
  from g have on1: "cacheOn c1 = cacheOn (bcache s)"
    by (auto simp: get_block_cache_def split: option.splits)
  define frame0 where "frame0 = (case p of None \<Rightarrow> device s F | Some x \<Rightarrow> x)"
  have f0: "F \<noteq> - 1 \<Longrightarrow> frame0 = device s F"
    using co by (cases p) (simp_all add: frame0_def)
  define d where "d = (if int (BLOCK_FRAME_SIZE P) - l mod int (BLOCK_FRAME_SIZE P) > n
                       then n else int (BLOCK_FRAME_SIZE P) - l mod int (BLOCK_FRAME_SIZE P))"
  define x where "x = overlay frame0 (nat (l mod int (BLOCK_FRAME_SIZE P))) buf (nat b) (nat d)"
  from st g obtain r c2 where p: "put_block_cache 0 F x c1 = Some (r, c2)"
    and b: "bcache s1 = c2" and dv: "device s1 = (device s)(F := x)" and l1: "l1 = l + d"
    by (auto simp: write_step_def Let_def F x_def frame0_def d_def split: if_splits option.splits)
  show "cacheOn (bcache s) \<longrightarrow> cached (bcache s1) F = Some (device s1 F)"
    using put_cached [OF ok1 _ p] on1 by (simp add: b dv)
  show "F \<noteq> - 1 \<longrightarrow> device s1 = (device s)(F := overlay (device s F)
            (nat (l mod int (BLOCK_FRAME_SIZE P))) buf (nat b) (nat (l1 - l)))"
    using f0 by (simp add: dv x_def l1)
qed

text \<open>
  C4. In every reachable state the cache is coherent: a hit for a valid frame number
  returns exactly the frame the device holds, that is the data of the most recent
  write to it. And each run of the write loop's body, from a reachable state, leaves a
  coherent state in which the frame it worked on has been stored on the device (the
  old frame overlaid with the caller's bytes) and, when the cache is on, is the frame
  the cache now hands out for that number.
\<close>

theorem write_through_coherence:
  assumes "reachable P s"
  shows "coherent s \<and>
         (\<forall>fi buf l n b l1 r1 b1 s1.
            0 < n \<and> write_step P fi buf l n b s = Some (l1, r1, b1, s1) \<longrightarrow>
              coherent s1 \<and>
              (cacheOn (bcache s) \<longrightarrow>
                 cached (bcache s1) (frames (files s ! fi) ! nat (l div int (BLOCK_FRAME_SIZE P)))
                   = Some (device s1 (frames (files s ! fi) ! nat (l div int (BLOCK_FRAME_SIZE P))))) \<and>
              (frames (files s ! fi) ! nat (l div int (BLOCK_FRAME_SIZE P)) \<noteq> - 1 \<longrightarrow>
                 device s1 = (device s)
                   (frames (files s ! fi) ! nat (l div int (BLOCK_FRAME_SIZE P)) :=
                      overlay (device s (frames (files s ! fi) ! nat (l div int (BLOCK_FRAME_SIZE P))))
                        (nat (l mod int (BLOCK_FRAME_SIZE P))) buf (nat b) (nat (l1 - l)))))"
proof -
  from assms have ok: "slots_ok (bcache s) (device s)" by (rule reachable_slots_ok)
  then have a: "coherent s" by (rule slots_ok_coherent)
  have b: "coherent s1 \<and>
        (cacheOn (bcache s) \<longrightarrow>
           cached (bcache s1) (frames (files s ! fi) ! nat (l div int (BLOCK_FRAME_SIZE P)))
             = Some (device s1 (frames (files s ! fi) ! nat (l div int (BLOCK_FRAME_SIZE P))))) \<and>
        (frames (files s ! fi) ! nat (l div int (BLOCK_FRAME_SIZE P)) \<noteq> - 1 \<longrightarrow>
           device s1 = (device s)
             (frames (files s ! fi) ! nat (l div int (BLOCK_FRAME_SIZE P)) :=
                overlay (device s (frames (files s ! fi) ! nat (l div int (BLOCK_FRAME_SIZE P))))
                  (nat (l mod int (BLOCK_FRAME_SIZE P))) buf (nat b) (nat (l1 - l))))"
    if "0 < n \<and> write_step P fi buf l n b s = Some (l1, r1, b1, s1)"
    for fi buf l n b l1 r1 b1 s1
  proof -
    from that have n: "0 < n" and st: "write_step P fi buf l n b s = Some (l1, r1, b1, s1)"
      by simp_all
    from write_step_slots_ok [OF ok st] have "coherent s1" by (rule slots_ok_coherent)
    with write_step_pushes [OF ok st n refl] show ?thesis by (intro conjI)
  qed
  show ?thesis
  proof (rule conjI [OF a], intro allI, rule impI)
    fix fi buf l n b l1 r1 b1 s1
    assume "0 < n \<and> write_step P fi buf l n b s = Some (l1, r1, b1, s1)"
    then show "coherent s1 \<and>
        (cacheOn (bcache s) \<longrightarrow>
           cached (bcache s1) (frames (files s ! fi) ! nat (l div int (BLOCK_FRAME_SIZE P)))
             = Some (device s1 (frames (files s ! fi) ! nat (l div int (BLOCK_FRAME_SIZE P))))) \<and>
        (frames (files s ! fi) ! nat (l div int (BLOCK_FRAME_SIZE P)) \<noteq> - 1 \<longrightarrow>
           device s1 = (device s)
             (frames (files s ! fi) ! nat (l div int (BLOCK_FRAME_SIZE P)) :=
                overlay (device s (frames (files s ! fi) ! nat (l div int (BLOCK_FRAME_SIZE P))))
                  (nat (l mod int (BLOCK_FRAME_SIZE P))) buf (nat b) (nat (l1 - l))))"
      by (rule b)
  qed
qed


lemmas demo_run_eval = boot_def demo_platform_def demo_device_def frame_of_def
  zero_file_def zero_handle_def block_poweron_def init_block_cache_def
  getNbFiles_def getFreeFrame_def block_open_def find_file.simps createNewFile_def
  openFile_def name_matches_def valid_fd_def empty_entry_def
  block_write_def write_loop.simps write_step_def allocateNewFrames_def
  get_block_cache_def put_block_cache_def find_frm.simps find_lru.simps cached_def
  Let_def upt_rec

theorem write_through_coherence_witness:
  "\<exists>s. reachable demo_platform s \<and> coherent s \<and> cached (bcache s) 4 \<noteq> None \<and>
       frames (files s ! 0) = [2, 3, 4]"
proof -
  have "\<exists>s1 s2 s3.
      block_poweron demo_platform (boot 2 2 demo_device) = Some (0, s1) \<and>
      block_open demo_platform ''a'' s1 = Some (0, s2) \<and>
      block_write demo_platform 0 [1, 2, 3, 4, 5, 6, 7, 8, 9, 10] 10 s2 = Some (10, s3) \<and>
      cached (bcache s3) 4 \<noteq> None \<and> frames (files s3 ! 0) = [2, 3, 4]"
    by (simp add: demo_run_eval)
  then obtain s1 s2 s3 where
    a: "block_poweron demo_platform (boot 2 2 demo_device) = Some (0, s1)"
    and b: "block_open demo_platform ''a'' s1 = Some (0, s2)"
    and c: "block_write demo_platform 0 [1, 2, 3, 4, 5, 6, 7, 8, 9, 10] 10 s2 = Some (10, s3)"
    and d: "cached (bcache s3) 4 \<noteq> None" "frames (files s3 ! 0) = [2, 3, 4]"
    by blast
  have "reachable demo_platform (boot 2 2 demo_device)" by (rule reachable.booted)
  from reachable.powered_on [OF this a] have "reachable demo_platform s1" .
  from reachable.opened [OF this b] have "reachable demo_platform s2" .
  from reachable.written [OF this c] have r: "reachable demo_platform s3" .
  from write_through_coherence [OF r] have "coherent s3" by (rule conjunct1)
  with r d show ?thesis by blast
qed

subsection \<open>Write, then read back\<close>

lemma same_frame:
  fixes fs l p :: int
  assumes fs: "0 < fs" and l: "0 \<le> l" and p: "l \<le> p" "p < l + (fs - l mod fs)"
  shows "p div fs = l div fs" and "p mod fs = l mod fs + (p - l)"
proof -
  have e: "p = fs * (l div fs) + (l mod fs + (p - l))" by simp
  have a: "0 \<le> l mod fs + (p - l)" using fs p by simp
  have b: "l mod fs + (p - l) < fs" using p by simp
  from e a b show "p div fs = l div fs" by (rule int_div_pos_eq)
  from e a b show "p mod fs = l mod fs + (p - l)" by (rule int_mod_pos_eq)
qed

lemma write_step_facts:
  assumes st: "write_step P fi buf l n b s = Some (l1, r1, b1, s1)" and n: "0 < n"
  shows "0 < BLOCK_FRAME_SIZE P" "0 \<le> l" "0 \<le> b"
    "nat (l div int (BLOCK_FRAME_SIZE P)) < length (frames (files s ! fi))"
    "l < l1" "l1 - l \<le> int (BLOCK_FRAME_SIZE P) - l mod int (BLOCK_FRAME_SIZE P)"
    "r1 = n - (l1 - l)" "0 \<le> r1" "b1 = b + (l1 - l)" "b1 \<le> int (length buf)"
    "files s1 = files s"
proof -
  from st show fs: "0 < BLOCK_FRAME_SIZE P" and "0 \<le> l" and "0 \<le> b"
    by (auto simp: write_step_def split: if_splits)
  have m: "l mod int (BLOCK_FRAME_SIZE P) < int (BLOCK_FRAME_SIZE P)"
    using fs by simp
  from st show "nat (l div int (BLOCK_FRAME_SIZE P)) < length (frames (files s ! fi))"
    by (auto simp: write_step_def Let_def split: if_splits)
  from st n m show "l < l1" "l1 - l \<le> int (BLOCK_FRAME_SIZE P) - l mod int (BLOCK_FRAME_SIZE P)"
    "r1 = n - (l1 - l)" "0 \<le> r1" "b1 = b + (l1 - l)" "b1 \<le> int (length buf)"
    "files s1 = files s"
    by (auto simp: write_step_def Let_def split: if_splits option.splits)
qed


lemma write_step_bytes:
  assumes ok: "slots_ok (bcache s) (device s)"
    and st: "write_step P fi buf l n b s = Some (l1, r1, b1, s1)" and n: "0 < n"
    and dist: "distinct (frames (files s ! fi))" and valid: "- 1 \<notin> set (frames (files s ! fi))"
  shows "\<And>p. l \<le> p \<Longrightarrow> p < l1 \<Longrightarrow> byte_at P s1 fi p = buf ! nat (b + (p - l))"
    and "\<And>p. 0 \<le> p \<Longrightarrow> p < l \<or> l1 \<le> p \<Longrightarrow>
            nat (p div int (BLOCK_FRAME_SIZE P)) < length (frames (files s ! fi)) \<Longrightarrow>
            byte_at P s1 fi p = byte_at P s fi p"
proof -
  let ?fs = "int (BLOCK_FRAME_SIZE P)"
  note f = write_step_facts [OF st n]
  have fs: "0 < ?fs" using f(1) by simp
  define F where "F = frames (files s ! fi) ! nat (l div ?fs)"
  from f(4) have "F \<in> set (frames (files s ! fi))" by (simp add: F_def)
  with valid have Fv: "F \<noteq> - 1" by auto
  from write_step_pushes(2) [OF ok st n F_def] Fv
  have dev: "device s1 = (device s)(F := overlay (device s F) (nat (l mod ?fs)) buf (nat b)
               (nat (l1 - l)))" by simp
  have off: "0 \<le> l mod ?fs" "l mod ?fs < ?fs" using fs by simp_all
  {
    fix p assume p: "l \<le> p" "p < l1"
    from p f(6) have p2: "p < l + (?fs - l mod ?fs)" by simp
    from same_frame [OF fs f(2) p(1) p2]
    have d: "p div ?fs = l div ?fs" and m: "p mod ?fs = l mod ?fs + (p - l)" by simp_all
    have "byte_at P s1 fi p = device s1 F (nat (l mod ?fs + (p - l)))"
      by (simp add: byte_at_def f(11) d m F_def)
    also have "\<dots> = buf ! (nat b + (nat (l mod ?fs + (p - l)) - nat (l mod ?fs)))"
    proof -
      have "nat (l mod ?fs) \<le> nat (l mod ?fs + (p - l))"
        "nat (l mod ?fs + (p - l)) < nat (l mod ?fs) + nat (l1 - l)"
        using p off by linarith+
      then show ?thesis by (simp add: dev overlay_def)
    qed
    also have "nat b + (nat (l mod ?fs + (p - l)) - nat (l mod ?fs)) = nat (b + (p - l))"
      using p off f(3) by simp
    finally show "byte_at P s1 fi p = buf ! nat (b + (p - l))" .
  next
    fix p assume p: "0 \<le> p" "p < l \<or> l1 \<le> p"
      and q: "nat (p div ?fs) < length (frames (files s ! fi))"
    show "byte_at P s1 fi p = byte_at P s fi p"
    proof (cases "frames (files s ! fi) ! nat (p div ?fs) = F")
      case False
      then show ?thesis by (simp add: byte_at_def f(11) dev)
    next
      case True
      with dist q f(4) have "nat (p div ?fs) = nat (l div ?fs)"
        by (simp add: F_def nth_eq_iff_index_eq)
      moreover have "0 \<le> p div ?fs" "0 \<le> l div ?fs"
        using p(1) f(2) fs by (simp_all add: pos_imp_zdiv_nonneg_iff)
      ultimately have d: "p div ?fs = l div ?fs" by simp
      have pe: "p = ?fs * (l div ?fs) + p mod ?fs" using d by (metis mult_div_mod_eq)
      have le: "l = ?fs * (l div ?fs) + l mod ?fs" by simp
      have "p mod ?fs < l mod ?fs \<or> l mod ?fs + (l1 - l) \<le> p mod ?fs"
        using p(2) pe le by linarith
      moreover have "0 \<le> p mod ?fs" using fs by simp
      ultimately have "\<not> (nat (l mod ?fs) \<le> nat (p mod ?fs) \<and>
          nat (p mod ?fs) < nat (l mod ?fs) + nat (l1 - l))"
        using off f(5) by linarith
      then have "device s1 F (nat (p mod ?fs)) = device s F (nat (p mod ?fs))"
        by (auto simp: dev overlay_def)
      with True show ?thesis by (simp add: byte_at_def f(11))
    qed
  }
qed


lemma write_loop_bytes:
  "slots_ok (bcache s) (device s) \<Longrightarrow> distinct (frames (files s ! fi)) \<Longrightarrow>
   - 1 \<notin> set (frames (files s ! fi)) \<Longrightarrow>
   write_loop P fi buf l n b s = Some (l', s') \<Longrightarrow>
     files s' = files s \<and>
     (\<forall>p. l \<le> p \<and> p < l + n \<longrightarrow> byte_at P s' fi p = buf ! nat (b + (p - l))) \<and>
     (\<forall>p. 0 \<le> p \<and> (p < l \<or> l + n \<le> p) \<and>
          nat (p div int (BLOCK_FRAME_SIZE P)) < length (frames (files s ! fi)) \<longrightarrow>
          byte_at P s' fi p = byte_at P s fi p) \<and>
     (0 < n \<longrightarrow> 0 \<le> l \<and> 0 \<le> b \<and> b + n \<le> int (length buf) \<and>
          l + n \<le> int (BLOCK_FRAME_SIZE P) * int (length (frames (files s ! fi))))"
proof (induction P fi buf l n b s rule: write_loop.induct)
  case (1 P fi buf l remaining b s)
  let ?fs = "int (BLOCK_FRAME_SIZE P)"
  let ?fr = "frames (files s ! fi)"
  show ?case
  proof (cases "0 < remaining")
    case False
    with "1.prems"(4) have "s' = s" by (simp add: write_loop.simps)
    with False show ?thesis by auto
  next
    case True
    with "1.prems"(4) obtain l1 r1 b1 s1
      where st: "write_step P fi buf l remaining b s = Some (l1, r1, b1, s1)"
        and rec: "write_loop P fi buf l1 r1 b1 s1 = Some (l', s')"
      by (subst (asm) write_loop.simps) (auto split: option.splits)
    note f = write_step_facts [OF st True]
    note wb = write_step_bytes [OF "1.prems"(1) st True "1.prems"(2,3)]
    have fs: "0 < ?fs" using f(1) by simp
    from write_step_slots_ok [OF "1.prems"(1) st] have ok1: "slots_ok (bcache s1) (device s1)" .
    from "1.prems"(2,3) f(11) have d1: "distinct (frames (files s1 ! fi))"
      "- 1 \<notin> set (frames (files s1 ! fi))" by simp_all
    from "1.IH" [OF True st refl refl refl ok1 d1 rec]
    have ih: "files s' = files s1"
      "\<And>p. l1 \<le> p \<Longrightarrow> p < l1 + r1 \<Longrightarrow> byte_at P s' fi p = buf ! nat (b1 + (p - l1))"
      "\<And>p. 0 \<le> p \<Longrightarrow> p < l1 \<or> l1 + r1 \<le> p \<Longrightarrow>
           nat (p div ?fs) < length (frames (files s1 ! fi)) \<Longrightarrow>
           byte_at P s' fi p = byte_at P s1 fi p"
      "0 < r1 \<Longrightarrow> b1 + r1 \<le> int (length buf) \<and> l1 + r1 \<le> ?fs * int (length (frames (files s1 ! fi)))"
      by auto
    have sum: "l1 + r1 = l + remaining" using f(7) by simp
    have in_frame: "nat (p div ?fs) < length ?fr" if "l \<le> p" "p < l1" for p
    proof -
      from that f(6) have "p < l + (?fs - l mod ?fs)" by simp
      from same_frame(1) [OF fs f(2) that(1) this] f(4) show ?thesis by simp
    qed
    have A: "byte_at P s' fi p = buf ! nat (b + (p - l))" if "l \<le> p" "p < l + remaining" for p
    proof (cases "p < l1")
      case True
      from that(1) f(2) have "0 \<le> p" by simp
      from ih(3) [OF this _ ] True in_frame [OF that(1) True] f(11)
      have "byte_at P s' fi p = byte_at P s1 fi p" by simp
      with wb(1) [OF that(1) True] show ?thesis by simp
    next
      case False
      then have "l1 \<le> p" by simp
      moreover from that(2) sum have "p < l1 + r1" by simp
      ultimately have "byte_at P s' fi p = buf ! nat (b1 + (p - l1))" by (rule ih(2))
      moreover have "b1 + (p - l1) = b + (p - l)" using f(9) by simp
      ultimately show ?thesis by simp
    qed
    have B: "byte_at P s' fi p = byte_at P s fi p"
      if "0 \<le> p" "p < l \<or> l + remaining \<le> p" "nat (p div ?fs) < length ?fr" for p
    proof -
      from that(2) f(5) sum have a: "p < l1 \<or> l1 + r1 \<le> p" by linarith
      from that(2) f(8) sum have b: "p < l \<or> l1 \<le> p" by linarith
      from ih(3) [OF that(1) a] that(3) f(11) have "byte_at P s' fi p = byte_at P s1 fi p" by simp
      with wb(2) [OF that(1) b that(3)] show ?thesis by simp
    qed
    have C: "b + remaining \<le> int (length buf)" "l + remaining \<le> ?fs * int (length ?fr)"
    proof -
      show "b + remaining \<le> int (length buf)"
      proof (cases "0 < r1")
        case True
        with ih(4) f(9) sum show ?thesis by simp
      next
        case False
        with f(8) have "r1 = 0" by simp
        with f(7,9,10) show ?thesis by simp
      qed
      show "l + remaining \<le> ?fs * int (length ?fr)"
      proof (cases "0 < r1")
        case True
        with ih(4) f(11) sum show ?thesis by simp
      next
        case False
        with f(8) have "r1 = 0" by simp
        with sum have e: "l + remaining = l1" by simp
        have "l div ?fs + 1 \<le> int (length ?fr)" using f(4) by linarith
        then have "?fs * (l div ?fs + 1) \<le> ?fs * int (length ?fr)"
          using fs by (intro mult_left_mono) simp_all
        moreover have "l1 \<le> ?fs * (l div ?fs + 1)"
        proof -
          have "?fs * (l div ?fs + 1) = ?fs * (l div ?fs) + ?fs" by (simp add: algebra_simps)
          moreover have "?fs * (l div ?fs) + l mod ?fs = l" by simp
          ultimately show ?thesis using f(6) by linarith
        qed
        ultimately show ?thesis using e by simp
      qed
    qed
    from ih(1) f(11) A B C f(2,3) show ?thesis by auto
  qed
qed


lemma map_upt_split:
  "map g [0..<a] @ map (\<lambda>k. g (a + k)) [0..<b] = map g [0..<a + b]"
proof -
  have "map (\<lambda>k. g (a + k)) [0..<b] = map g (map (\<lambda>k. k + a) [0..<b])"
    by (simp add: add.commute)
  also have "\<dots> = map g [a..<a + b]" by (simp only: map_add_upt add.commute)
  finally show ?thesis by (simp add: upt_add_eq_append [of 0 a b, simplified])
qed

lemma byte_at_cong:
  "device s1 = device s \<Longrightarrow> files s1 = files s \<Longrightarrow> byte_at P s1 fi p = byte_at P s fi p"
  by (simp add: byte_at_def)

lemma read_step_bytes:
  assumes ok: "slots_ok (bcache s) (device s)"
    and valid: "- 1 \<notin> set (frames (files s ! fi))"
    and st: "read_step P fi l n acc s = Some (l1, r1, buf1, s1)" and n: "0 < n"
  shows "buf1 = acc @ map (\<lambda>k. byte_at P s fi (l + int k)) [0..<nat (l1 - l)]"
    and "device s1 = device s" and "files s1 = files s" and "l < l1" and "0 \<le> l"
proof -
  let ?fs = "int (BLOCK_FRAME_SIZE P)"
  from st have fs: "0 < ?fs" and l: "0 \<le> l"
    and idx: "nat (l div ?fs) < length (frames (files s ! fi))"
    by (auto simp: read_step_def Let_def split: if_splits)
  show "0 \<le> l" by (rule l)
  from read_step_frame [OF st] show "device s1 = device s" "files s1 = files s"
    by (metis driver.select_convs(8) driver.surjective driver.update_convs(7),
        metis driver.select_convs(5) driver.surjective driver.update_convs(7))
  define F where "F = frames (files s ! fi) ! nat (l div ?fs)"
  from idx have "F \<in> set (frames (files s ! fi))" by (simp add: F_def)
  with valid have Fv: "F \<noteq> - 1" by auto
  have off: "0 \<le> l mod ?fs" "l mod ?fs < ?fs" using fs by simp_all
  define d where "d = (if ?fs - l mod ?fs > n then n else ?fs - l mod ?fs)"
  have d: "0 < d" "d \<le> ?fs - l mod ?fs" using off n by (simp_all add: d_def)
  from st obtain p c1 where g: "get_block_cache 0 F (bcache s) = Some (p, c1)"
    by (auto simp: read_step_def Let_def F_def split: if_splits option.splits)
  from get_slots_ok [OF ok g] Fv have co: "\<And>x. p = Some x \<Longrightarrow> x = device s F" by auto
  from st g co have b1: "buf1 = acc @ map (device s F) [nat (l mod ?fs)..<nat (l mod ?fs + d)]"
    and l1: "l1 = l + d"
    by (auto simp: read_step_def Let_def F_def d_def split: if_splits option.splits)
  from l1 d show "l < l1" by simp
  have "map (device s F) [nat (l mod ?fs)..<nat (l mod ?fs + d)]
          = map (\<lambda>k. byte_at P s fi (l + int k)) [0..<nat d]"
  proof (rule nth_equalityI)
    show "length (map (device s F) [nat (l mod ?fs)..<nat (l mod ?fs + d)])
            = length (map (\<lambda>k. byte_at P s fi (l + int k)) [0..<nat d])"
      using off d by simp
  next
    fix k assume "k < length (map (device s F) [nat (l mod ?fs)..<nat (l mod ?fs + d)])"
    then have k: "int k < d" using off d by simp
    from k d have p2: "l + int k < l + (?fs - l mod ?fs)" by simp
    from same_frame [OF fs l _ p2]
    have e: "(l + int k) div ?fs = l div ?fs" "(l + int k) mod ?fs = l mod ?fs + int k" by simp_all
    have "nat (l mod ?fs + int k) = nat (l mod ?fs) + k" using off by simp
    with k off d show "map (device s F) [nat (l mod ?fs)..<nat (l mod ?fs + d)] ! k
            = map (\<lambda>k. byte_at P s fi (l + int k)) [0..<nat d] ! k"
      by (simp add: byte_at_def e F_def)
  qed
  with b1 l1 show "buf1 = acc @ map (\<lambda>k. byte_at P s fi (l + int k)) [0..<nat (l1 - l)]"
    by simp
qed

lemma read_loop_bytes:
  "slots_ok (bcache s) (device s) \<Longrightarrow> - 1 \<notin> set (frames (files s ! fi)) \<Longrightarrow>
   read_loop P fi l n acc s = Some (l', out, s') \<Longrightarrow>
     out = acc @ map (\<lambda>k. byte_at P s fi (l + int k)) [0..<nat n]"
proof (induction P fi l n acc s rule: read_loop.induct)
  case (1 P fi l remaining acc s)
  show ?case
  proof (cases "remaining = 0")
    case True
    with "1.prems"(3) show ?thesis by (simp add: read_loop.simps)
  next
    case False
    with "1.prems"(3) obtain l1 r1 buf1 s1
      where st: "read_step P fi l remaining acc s = Some (l1, r1, buf1, s1)"
        and rec: "read_loop P fi l1 r1 buf1 s1 = Some (l', out, s')"
      by (subst (asm) read_loop.simps) (auto split: option.splits)
    from st False have pos: "0 < remaining"
      by (auto simp: read_step_def split: if_splits)
    note rb = read_step_bytes [OF "1.prems"(1,2) st pos]
    from read_step_frame [OF st] have sum: "l1 + r1 = l + remaining" and r1: "0 \<le> r1" by auto
    from read_step_slots_ok [OF "1.prems"(1) st] have ok1: "slots_ok (bcache s1) (device s1)" .
    from "1.prems"(2) rb(3) have v1: "- 1 \<notin> set (frames (files s1 ! fi))" by simp
    from "1.IH" [OF False st refl refl refl ok1 v1 rec]
    have "out = buf1 @ map (\<lambda>k. byte_at P s1 fi (l1 + int k)) [0..<nat r1]" .
    also have "(\<lambda>k. byte_at P s1 fi (l1 + int k)) = (\<lambda>k. byte_at P s fi (l + int (nat (l1 - l) + k)))"
      using rb(4) by (auto simp: byte_at_cong [OF rb(2,3)] algebra_simps)
    finally have "out = acc @ (map (\<lambda>k. byte_at P s fi (l + int k)) [0..<nat (l1 - l)] @
        map (\<lambda>k. byte_at P s fi (l + int (nat (l1 - l) + k))) [0..<nat r1])"
      by (simp add: rb(1))
    also have "map (\<lambda>k. byte_at P s fi (l + int k)) [0..<nat (l1 - l)] @
        map (\<lambda>k. byte_at P s fi (l + int (nat (l1 - l) + k))) [0..<nat r1]
        = map (\<lambda>k. byte_at P s fi (l + int k)) [0..<nat (l1 - l) + nat r1]"
      by (rule map_upt_split)
    also have "nat (l1 - l) + nat r1 = nat remaining"
      using rb(4) r1 sum by linarith
    finally show ?thesis .
  qed
qed


lemma take_map_nth: "m \<le> length xs \<Longrightarrow> map (\<lambda>k. xs ! k) [0..<m] = take m xs"
  by (rule nth_equalityI) simp_all

lemma allocateNewFrames_distinct:
  assumes al: "allocateNewFrames P fi cur count s = (r, s1)" and fi: "fi < length (files s)"
    and dist: "distinct (frames (files s ! fi))"
    and range: "\<forall>F\<in>set (frames (files s ! fi)). 0 \<le> F \<and> F < freeFrameNr s"
    and free: "0 \<le> freeFrameNr s"
  shows "distinct (frames (files s1 ! fi))" and "- 1 \<notin> set (frames (files s1 ! fi))"
    and "bcache s1 = bcache s" and "device s1 = device s" and "handles s1 = handles s"
    and "isOn s1 = isOn s" and "length (files s1) = length (files s)"
    and "size_f (files s1 ! fi) = size_f (files s ! fi)"
proof -
  have new: "distinct (map (\<lambda>k. freeFrameNr s + int k) [0..<m])" for m
    by (simp add: distinct_map inj_on_def)
  have disj: "freeFrameNr s + int k \<notin> set (frames (files s ! fi))" for k
  proof
    assume "freeFrameNr s + int k \<in> set (frames (files s ! fi))"
    with range have "freeFrameNr s + int k < freeFrameNr s" by blast
    then show False by simp
  qed
  from al fi dist new disj show "distinct (frames (files s1 ! fi))"
    by (auto simp: allocateNewFrames_def Let_def split: if_splits)
  have old: "- 1 \<notin> set (frames (files s ! fi))"
  proof
    assume "- 1 \<in> set (frames (files s ! fi))"
    with range have "(0::int) \<le> - 1" by blast
    then show False by simp
  qed
  from al fi old free show "- 1 \<notin> set (frames (files s1 ! fi))"
    by (auto simp: allocateNewFrames_def Let_def split: if_splits)
  from al fi show "bcache s1 = bcache s" "device s1 = device s" "handles s1 = handles s"
    "isOn s1 = isOn s" "length (files s1) = length (files s)"
    "size_f (files s1 ! fi) = size_f (files s ! fi)"
    by (auto simp: allocateNewFrames_def Let_def split: if_splits)
qed

lemma write_step_cache_ok:
  assumes "cache_ok (bcache s)" and st: "write_step P fi buf l n b s = Some (l1, r1, b1, s1)"
  shows "cache_ok (bcache s1)"
proof -
  define F where "F = frames (files s ! fi) ! nat (l div int (BLOCK_FRAME_SIZE P))"
  from st obtain p c1 where g: "get_block_cache 0 F (bcache s) = Some (p, c1)"
    by (auto simp: write_step_def Let_def F_def split: if_splits option.splits)
  from get_total [OF assms(1), of 0 F] g have ok1: "cache_ok c1" by auto
  from st g obtain x r c2 where p: "put_block_cache 0 F x c1 = Some (r, c2)"
    and b: "bcache s1 = c2"
    by (auto simp: write_step_def Let_def F_def split: if_splits option.splits)
  from put_total [OF ok1, of 0 F x] p b show ?thesis by auto
qed

lemma write_loop_cache_ok:
  "cache_ok (bcache s) \<Longrightarrow> write_loop P fi buf l n b s = Some (l', s') \<Longrightarrow> cache_ok (bcache s')"
proof (induction P fi buf l n b s rule: write_loop.induct)
  case (1 P fi buf l remaining b s)
  show ?case
  proof (cases "0 < remaining")
    case False
    with "1.prems" show ?thesis by (simp add: write_loop.simps)
  next
    case True
    with "1.prems"(2) obtain l1 r1 b1 s1
      where st: "write_step P fi buf l remaining b s = Some (l1, r1, b1, s1)"
        and rec: "write_loop P fi buf l1 r1 b1 s1 = Some (l', s')"
      by (subst (asm) write_loop.simps) (auto split: option.splits)
    from write_step_cache_ok [OF "1.prems"(1) st] have "cache_ok (bcache s1)" .
    from "1.IH" [OF True st refl refl refl this rec] show ?thesis .
  qed
qed


text \<open>
  C1. Take a powered-on state whose cache is allocated and coherent with the device,
  and an open handle on a file whose frames are pairwise distinct and lie below the
  next free frame number, with sizes and cursors in the 32-bit range. If \<open>block_write\<close>
  of \<open>count\<close> bytes of \<open>buf\<close> succeeds, then \<open>block_seek\<close> back to where the write began
  succeeds, and \<open>block_read\<close> of \<open>count\<close> bytes through the same handle returns \<open>count\<close>
  and exactly the first \<open>count\<close> bytes of \<open>buf\<close>.
\<close>

theorem write_read_round_trip:
  assumes on: "isOn s" and h: "open_on s fd fi"
    and ok: "slots_ok (bcache s) (device s)" and cok: "cache_ok (bcache s)"
    and dist: "distinct (frames (files s ! fi))"
    and range: "\<forall>F\<in>set (frames (files s ! fi)). 0 \<le> F \<and> F < freeFrameNr s"
    and free: "0 \<le> freeFrameNr s"
    and w: "block_write P fd buf count s = Some (r, s1)" and r: "0 \<le> r"
    and pos: "uint pos = loc (handles s ! nat fd)"
    and bounds: "0 \<le> size_f (files s ! fi)" "size_f (files s ! fi) < 2 ^ 31"
      "loc (handles s ! nat fd) + count < 2 ^ 31"
  shows "\<exists>s2 s3. block_seek fd pos s1 = Some (0, s2) \<and>
           block_read P fd count s2 = Some (count, take (nat count) buf, s3)"
proof -
  let ?l = "loc (handles s ! nat fd)"
  let ?fs = "int (BLOCK_FRAME_SIZE P)"
  from h have v: "valid_fd fd s" and op: "status (handles s ! nat fd) = OPEN"
    and fh: "file_h (handles s ! nat fd) = Some fi" and fi: "fi < length (files s)"
    by (simp_all add: open_on_def)
  from v have lt: "nat fd < length (handles s)" by (simp add: valid_fd_def)
  obtain r0 sa where al: "allocateNewFrames P fi ?l count s = (r0, sa)"
    by (cases "allocateNewFrames P fi ?l count s")
  note a = allocateNewFrames_distinct [OF al fi dist range free]
  from w r v op fh fi al have r0: "r0 \<noteq> - 1"
    by (auto simp: block_write_def split: if_splits)
  with w v op fh fi al obtain l' sb where wl: "write_loop P fi buf ?l count 0 sa = Some (l', sb)"
    and rc: "r = count"
    and s1: "s1 = sb\<lparr>handles := (handles sb)[nat fd := (handles sb ! nat fd)\<lparr>loc := l'\<rparr>],
                     files := (if size_f (files sb ! fi) < l'
                               then (files sb)[fi := (files sb ! fi)\<lparr>size_f := l'\<rparr>]
                               else files sb)\<rparr>"
    by (auto simp: block_write_def split: if_splits option.splits)
  from rc r have c0: "0 \<le> count" by simp
  from write_loop_frame [OF wl] c0 have l': "l' = ?l + count"
    and sb: "sb = sa\<lparr>device := device sb, bcache := bcache sb\<rparr>" by simp_all
  from sb have sb_h: "handles sb = handles sa" and sb_on: "isOn sb = isOn sa"
    by (metis driver.select_convs(6) driver.surjective driver.update_convs(7,8),
        metis driver.select_convs(1) driver.surjective driver.update_convs(7,8))
  from a(3,4) ok have oka: "slots_ok (bcache sa) (device sa)" by simp
  from a(3) cok have coka: "cache_ok (bcache sa)" by simp
  from write_loop_bytes [OF oka a(1,2) wl]
  have sb_f: "files sb = files sa"
    and A: "\<And>p. ?l \<le> p \<Longrightarrow> p < ?l + count \<Longrightarrow> byte_at P sb fi p = buf ! nat (p - ?l)"
    and C: "0 < count \<Longrightarrow> 0 \<le> ?l \<and> count \<le> int (length buf) \<and>
               ?l + count \<le> ?fs * int (length (frames (files sa ! fi)))"
    by auto
  from write_loop_slots_ok [OF oka wl] have okb: "slots_ok (bcache sb) (device sb)" .
  from write_loop_cache_ok [OF coka wl] have cokb: "cache_ok (bcache sb)" .
  have fi_b: "fi < length (files sb)" using fi a(7) sb_f by simp
  have h1: "handles s1 = (handles s)[nat fd := (handles s ! nat fd)\<lparr>loc := l'\<rparr>]"
    by (simp add: s1 sb_h a(5))
  have f1: "frames (files s1 ! fi) = frames (files sa ! fi)"
    "size_f (files s1 ! fi) = max (size_f (files s ! fi)) l'"
    "length (files s1) = length (files s)"
    using fi_b by (simp_all add: s1 sb_f a(7,8) max_def)
  have c1: "bcache s1 = bcache sb" "device s1 = device sb" "isOn s1 = isOn s"
    by (simp_all add: s1 sb_on a(6))
  have v1: "valid_fd fd s1" using v by (simp add: valid_fd_def h1)
  from pos bounds(3) c0 have sp: "sint pos = ?l" by (simp add: s32_id)
  define s2 where
    "s2 = s1\<lparr>handles := (handles s1)[nat fd := (handles s1 ! nat fd)\<lparr>loc := ?l\<rparr>]\<rparr>"
  have big: "0 \<le> size_f (files s1 ! fi)" "size_f (files s1 ! fi) < 2 ^ 31"
    "\<not> size_f (files s1 ! fi) < uint pos"
    using bounds c0 by (simp_all add: f1 l' pos max_def)
  from u32_less [OF big(1,2), of pos] big(3)
  have "\<not> (word_of_int (size_f (files s1 ! fi)) :: 32 word) < pos" by simp
  with v1 lt op fh fi f1(3) have sk: "block_seek fd pos s1 = Some (0, s2)"
    by (simp add: block_seek_def h1 sp s2_def)
  note s2 = s2_def
  have h2: "handles s2 ! nat fd = \<lparr>status = OPEN, file_h = Some fi, loc = ?l\<rparr>"
    using lt op fh by (simp add: s2 h1)
  have v2: "valid_fd fd s2" using v by (simp add: valid_fd_def s2 h1)
  have f2: "files s2 = files s1" "bcache s2 = bcache sb" "device s2 = device sb" "isOn s2"
    using on by (simp_all add: s2 c1)
  have sz: "size_f (files s2 ! fi) - ?l \<ge> count" by (simp add: f2 f1 l')
  have by2: "byte_at P s2 fi p = byte_at P sb fi p" for p
    by (simp add: byte_at_def f2 f1 sb_f)
  have ok2: "slots_ok (bcache s2) (device s2)" using okb by (simp add: f2)
  have val2: "- 1 \<notin> set (frames (files s2 ! fi))" using a(2) by (simp add: f2 f1)
  have "\<exists>out s3. read_loop P fi ?l count [] s2 = Some (?l + count, out, s3)"
  proof (cases "0 < count")
    case False
    with c0 show ?thesis by (simp add: read_loop.simps)
  next
    case True
    from C [OF True] have "frames_cover P (files s2 ! fi) (?l + count)"
      using wl True by (auto simp: frames_cover_def f2 f1 write_loop.simps write_step_def
          split: if_splits)
    from read_loop_total [OF _ this _ c0, of "[]"] cokb C [OF True] show ?thesis
      by (auto simp: f2)
  qed
  then obtain out s3 where rl: "read_loop P fi ?l count [] s2 = Some (?l + count, out, s3)"
    by blast
  from read_loop_bytes [OF ok2 val2 rl]
  have "out = map (\<lambda>k. byte_at P sb fi (?l + int k)) [0..<nat count]" by (simp add: by2)
  also have "\<dots> = map (\<lambda>k. buf ! k) [0..<nat count]"
  proof (rule map_cong [OF refl])
    fix k assume "k \<in> set [0..<nat count]"
    then have "?l \<le> ?l + int k" "?l + int k < ?l + count" by auto
    from A [OF this] show "byte_at P sb fi (?l + int k) = buf ! k" by simp
  qed
  also have "\<dots> = take (nat count) buf"
  proof (cases "0 < count")
    case True
    from C [OF True] have "nat count \<le> length buf" by linarith
    then show ?thesis by (rule take_map_nth)
  next
    case False
    then show ?thesis by simp
  qed
  finally have out: "out = take (nat count) buf" .
  have cnt: "\<not> size_f (files s1 ! fi) - ?l < count"
    using sz by (simp add: f2)
  from f2(4) v2 h2 fi f1(3) rl out
  have "\<exists>s3. block_read P fd count s2 = Some (count, take (nat count) buf, s3)"
    by (simp add: block_read_def Let_def f2(1) cnt)
  with sk show ?thesis by blast
qed


theorem write_read_round_trip_witness:
  "\<exists>s1 s2 s3.
     block_write demo_platform 0 [21, 22, 23, 24, 25, 26] 6 demo_at3 = Some (6, s1) \<and>
     block_seek 0 3 s1 = Some (0, s2) \<and>
     block_read demo_platform 0 6 s2 = Some (6, [21, 22, 23, 24, 25, 26], s3)"
proof -
  obtain s1 where
    w: "block_write demo_platform 0 [21, 22, 23, 24, 25, 26] 6 demo_at3 = Some (6, s1)"
    by (simp add: demo_write_eval demo_at3_def)
  have h: "isOn demo_at3" "open_on demo_at3 0 0"
    "slots_ok (bcache demo_at3) (device demo_at3)" "cache_ok (bcache demo_at3)"
    "distinct (frames (files demo_at3 ! 0))"
    "\<forall>F\<in>set (frames (files demo_at3 ! 0)). 0 \<le> F \<and> F < freeFrameNr demo_at3"
    "0 \<le> freeFrameNr demo_at3"
    by (simp_all add: demo_at3_def demo_state_def demo_device_def open_on_def valid_fd_def
        slots_ok_def cache_ok_def All_less_Suc numeral_2_eq_2)
  have p: "uint (3 :: 32 word) = loc (handles demo_at3 ! nat 0)"
    "0 \<le> size_f (files demo_at3 ! 0)" "size_f (files demo_at3 ! 0) < 2 ^ 31"
    "loc (handles demo_at3 ! nat 0) + 6 < 2 ^ 31"
    by (simp_all add: demo_at3_def demo_state_def)
  from write_read_round_trip [OF h w _ p]
  obtain s2 s3 where "block_seek 0 3 s1 = Some (0, s2)"
    "block_read demo_platform 0 6 s2 = Some (6, take (nat 6) [21, 22, 23, 24, 25, 26], s3)"
    by auto
  with w show ?thesis by auto
qed

end
